theory Spec2Isabelle
  imports Complex_Main "HOL-Library.Word"
begin

unbundle bit_operations_syntax

section \<open>Machine types, constants and the environment of warp\_compress.c\<close>

text \<open>
  The model is for an LP64 platform: \<open>size_t\<close> has 64 bits, \<open>int\<close> and \<open>uint32_t\<close> have
  32. Bytes are \<open>8 word\<close>, the two header fields are \<open>32 word\<close>. A \<open>size_t\<close> value is a
  \<open>nat\<close>; the wrap-around is written out at the two places where a sum can really pass
  its width on such a platform:
  \<^item> \<open>HEADER_SIZE + comp_size\<close> in the decoder's index pass (and in the encoder's write
    loop) is an \<open>int\<close> plus a \<open>uint32_t\<close>, hence a 32-bit unsigned sum;
  \<^item> \<open>total_uncompressed_size += block_size\<close> in the index pass adds a declared size of up
    to 512 MiB for every eight bytes of input, hence is taken modulo \<open>2 ^ 64\<close>.
  Every other \<open>size_t\<close> sum is bounded by the size of memory that is live at that point
  (the input buffer, whose length is a \<open>Py_ssize_t\<close>, the \<open>results\<close> array together with
  all \<open>comp_buf\<close> buffers, the \<open>index\<close> array) and is a sum of natural numbers.
\<close>

type_synonym byte = "8 word"
type_synonym uint32_t = "32 word"

definition MAX_BLOCK_SIZE :: nat where
  "MAX_BLOCK_SIZE = 512 * 1024 * 1024"

definition HEADER_SIZE :: nat where
  "HEADER_SIZE = 8"

text \<open>
  How a call ends when it yields no data: with one of the Python exceptions the two
  functions raise (with the message that tells them apart), or with the segmentation fault
  of a Python C API call, which kills the process. \<open>SystemError\<close> is what
  \<open>PyErr_Format\<close> itself raises for a format string it refuses.
\<close>

datatype value_error = Block_size_exceeds_MAX_BLOCK_SIZE | Block_size_cannot_be_zero

datatype runtime_error = Invalid_block_header uint32_t | Trailing_data | LZ4_size_mismatch

datatype error =
  ValueError value_error | SystemError | MemoryError | RuntimeError runtime_error | Segfault

text \<open>
  \<open>memcpy\<close> of a \<open>uint32_t\<close> to and from the byte buffer uses the byte order of the
  machine. Allocation can fail at every call; the platform says which requests succeed
  (the site and the number of elements asked for) and what a fresh, uninitialised buffer
  holds.

  The platform also says what the interpreter and the OpenMP runtime do where the file
  depends on them:
  \<^item> \<open>strict_format\<close>: \<open>PyErr_Format\<close> refuses a conversion it does not know and raises
    \<open>SystemError\<close> (CPython 3.12 and later); before, it copied the conversion to the
    message. The conversion \<open>%Ld\<close> of line 33 is one it does not know.
  \<^item> \<open>tstate_thread_local\<close>: the interpreter keeps the current Python thread state per
    thread (CPython 3.12 and later), so that a thread of the OpenMP team other than the
    one that called into the module has none, and \<open>PyErr_Occurred\<close> called on it is a
    segmentation fault. Before, the thread state was the one of the thread that holds the
    global interpreter lock, which is the calling thread.
  \<^item> \<open>on_calling_thread i\<close>: \<open>schedule(dynamic)\<close> gives iteration \<open>i\<close> of the parallel
    loop to the thread that called into the module.
\<close>

datatype endian = LittleEndian | BigEndian

datatype alloc_site = Results_array | Comp_buf nat | Encoded_output | Index_array | Decoded_output

record platform =
  byte_order :: endian
  alloc_ok :: "alloc_site \<Rightarrow> nat \<Rightarrow> bool"
  fresh :: "nat \<Rightarrow> byte"
  strict_format :: bool
  tstate_thread_local :: bool
  on_calling_thread :: "nat \<Rightarrow> bool"

text \<open>
  \<open>PyErr_Occurred\<close> and the call that sets the exception, made inside the parallel loop by
  the thread that runs iteration \<open>i\<close>, return.
\<close>

definition pyerr_callable :: "platform \<Rightarrow> nat \<Rightarrow> bool" where
  "pyerr_callable pf i = (if tstate_thread_local pf then on_calling_thread pf i else True)"

text \<open>
  The three functions of the LZ4 library that the file calls. Their code is not part of
  the repository, so they are parameters.
  \<^item> \<open>LZ4_compress_default src dstCapacity\<close> is the list of bytes written to \<open>dst\<close>; the
    C function returns their number, and 0 (nothing written) when it fails.
  \<^item> \<open>LZ4_decompress_safe src compressedSize dstCapacity\<close> is \<open>Inr\<close> of the bytes written
    to \<open>dst\<close> (the C function returns their number) or \<open>Inl\<close> of the negative error code.
\<close>

record lz4 =
  LZ4_compressBound :: "int \<Rightarrow> int"
  LZ4_compress_default :: "byte list \<Rightarrow> int \<Rightarrow> byte list"
  LZ4_decompress_safe :: "byte list \<Rightarrow> int \<Rightarrow> int \<Rightarrow> int + byte list"

subsection \<open>Buffers\<close>

text \<open>\<open>memcpy (buf + off, src, length src)\<close>; the buffer keeps its length.\<close>

definition memcpy :: "byte list \<Rightarrow> nat \<Rightarrow> byte list \<Rightarrow> byte list" where
  "memcpy buf off src = take (length buf) (take off buf @ src @ drop (off + length src) buf)"

definition uninit :: "platform \<Rightarrow> nat \<Rightarrow> byte list" where
  "uninit pf n = map (fresh pf) [0..<n]"

text \<open>The four bytes of a \<open>uint32_t\<close> in memory, lowest address first, and back.\<close>

definition le_bytes :: "uint32_t \<Rightarrow> byte list" where
  "le_bytes w = [ucast w, ucast (drop_bit 8 w), ucast (drop_bit 16 w), ucast (drop_bit 24 w)]"

fun le_word :: "byte list \<Rightarrow> uint32_t" where
  "le_word [] = 0"
| "le_word (b # bs) = ucast b OR push_bit 8 (le_word bs)"

definition store_u32 :: "endian \<Rightarrow> uint32_t \<Rightarrow> byte list" where
  "store_u32 e w = (case e of LittleEndian \<Rightarrow> le_bytes w | BigEndian \<Rightarrow> rev (le_bytes w))"

definition load_u32 :: "endian \<Rightarrow> byte list \<Rightarrow> uint32_t" where
  "load_u32 e bs = (case e of LittleEndian \<Rightarrow> le_word bs | BigEndian \<Rightarrow> le_word (rev bs))"

section \<open>compress\_hybrid\<close>

record BlockResult =
  offset_in :: nat
  orig_size :: nat
  comp_size :: int
  comp_buf :: "byte list"

text \<open>
  The body of the parallel loop for block \<open>i\<close>. \<open>None\<close> is the \<open>continue\<close> after a failed
  \<open>malloc\<close>; the calls of \<open>PyErr_Occurred\<close> and \<open>PyErr_NoMemory\<close> before it are made by
  the thread that runs the iteration, and \<open>compress_hybrid\<close> says what they do. \<open>comp_buf\<close>
  is the part of the buffer that has been written, which is all that is read later.
\<close>

definition compress_block :: "lz4 \<Rightarrow> platform \<Rightarrow> byte list \<Rightarrow> nat \<Rightarrow> nat \<Rightarrow> BlockResult option" where
  "compress_block lz pf in_data block_size i =
     (let in_size = length in_data;
          offset_in = i * block_size;
          orig_size = (if offset_in + block_size \<le> in_size then block_size else in_size - offset_in);
          max_comp = LZ4_compressBound lz (int orig_size)
      in if \<not> alloc_ok pf (Comp_buf i) (nat (max_comp mod 2 ^ 64)) then None
         else
           let src = take orig_size (drop offset_in in_data);
               dst = LZ4_compress_default lz src max_comp;
               comp_size = int (length dst)
           in if comp_size > 0 \<and> comp_size < int orig_size
              then Some \<lparr>offset_in = offset_in, orig_size = orig_size,
                         comp_size = comp_size, comp_buf = dst\<rparr>
              else Some \<lparr>offset_in = offset_in, orig_size = orig_size,
                         comp_size = int orig_size, comp_buf = src\<rparr>)"

text \<open>The sequential loop that writes header and payload of every block.\<close>

fun write_frames :: "endian \<Rightarrow> BlockResult list \<Rightarrow> byte list \<Rightarrow> nat \<Rightarrow> byte list" where
  "write_frames e [] out_data out_offset = out_data"
| "write_frames e (r # rs) out_data out_offset =
     (let orig_size_32 = (of_nat (orig_size r) :: uint32_t);
          comp_size_32 = (of_int (comp_size r) :: uint32_t);
          out1 = memcpy out_data out_offset (store_u32 e orig_size_32);
          out2 = memcpy out1 (out_offset + 4) (store_u32 e comp_size_32);
          out3 = memcpy out2 (out_offset + HEADER_SIZE) (take (unat comp_size_32) (comp_buf r))
      in write_frames e rs out3 (out_offset + unat (of_nat HEADER_SIZE + comp_size_32)))"

definition num_blocks_of :: "nat \<Rightarrow> nat \<Rightarrow> nat" where
  "num_blocks_of in_size block_size = (in_size + block_size - 1) div block_size"

definition compress_results :: "lz4 \<Rightarrow> platform \<Rightarrow> byte list \<Rightarrow> nat \<Rightarrow> BlockResult option list" where
  "compress_results lz pf in_data block_size =
     map (compress_block lz pf in_data block_size) [0..<num_blocks_of (length in_data) block_size]"

definition total_comp_size_of :: "BlockResult list \<Rightarrow> nat" where
  "total_comp_size_of results = sum_list (map (\<lambda>r. nat (comp_size r + int HEADER_SIZE)) results)"

text \<open>
  \<open>in_data\<close> and \<open>block_size\<close> are the buffer and the \<open>size_t\<close> that
  \<open>PyArg_ParseTuple\<close> has stored. Its format \<open>L\<close> stores a \<open>long long\<close>: a Python integer
  \<open>n\<close> from \<open>- 2 ^ 63\<close> to \<open>2 ^ 63 - 1\<close> arrives as \<open>n mod 2 ^ 64\<close> (so \<open>-1\<close> is
  \<open>2 ^ 64 - 1\<close>, which the first check refuses), and an integer outside this range, like
  every other argument it refuses, raises \<open>TypeError\<close> and does not reach this code.

  The first check raises through \<open>PyErr_Format\<close> with the conversion \<open>%Ld\<close>. When a
  \<open>malloc\<close> of the parallel loop fails, the thread that runs the iteration calls
  \<open>PyErr_Occurred\<close>; the call is fatal where \<open>pyerr_callable\<close> does not hold.
\<close>

definition compress_hybrid :: "lz4 \<Rightarrow> platform \<Rightarrow> byte list \<Rightarrow> nat \<Rightarrow> error + byte list" where
  "compress_hybrid lz pf in_data block_size =
     (if block_size > MAX_BLOCK_SIZE
      then Inl (if strict_format pf then SystemError
                else ValueError Block_size_exceeds_MAX_BLOCK_SIZE)
      else if block_size = 0 then Inl (ValueError Block_size_cannot_be_zero)
      else if \<not> alloc_ok pf Results_array (num_blocks_of (length in_data) block_size)
      then Inl MemoryError
      else
        let results = compress_results lz pf in_data block_size
        in if list_ex (\<lambda>r. r = None) results
           then Inl (if list_ex (\<lambda>i. results ! i = None \<and> \<not> pyerr_callable pf i)
                          [0..<length results]
                     then Segfault else MemoryError)
           else
             let total_comp_size = total_comp_size_of (map the results)
             in if \<not> alloc_ok pf Encoded_output total_comp_size then Inl MemoryError
                else Inr (write_frames (byte_order pf) (map the results)
                            (uninit pf total_comp_size) 0))"

section \<open>decompress\_hybrid\<close>

record BlockIndex =
  blk_in_offset :: nat
  blk_out_offset :: nat
  blk_comp_size :: uint32_t
  blk_orig_size :: uint32_t

text \<open>
  One iteration of the loop of pass 1, on the loop variables \<open>in_offset\<close>,
  \<open>total_uncompressed_size\<close>, \<open>index_capacity\<close> and \<open>index\<close> (\<open>num_blocks\<close> is the
  length of \<open>index\<close>).
\<close>

definition index_step ::
  "platform \<Rightarrow> byte list \<Rightarrow> nat \<Rightarrow> nat \<Rightarrow> nat \<Rightarrow> BlockIndex list
     \<Rightarrow> error + (nat \<times> nat \<times> nat \<times> BlockIndex list)" where
  "index_step pf in_data in_offset total_uncompressed_size index_capacity index =
     (let in_size = length in_data;
          block_size = load_u32 (byte_order pf) (take 4 (drop in_offset in_data));
          comp_size = load_u32 (byte_order pf) (take 4 (drop (in_offset + 4) in_data))
      in if unat block_size > MAX_BLOCK_SIZE \<or> unat comp_size > in_size - (in_offset + HEADER_SIZE)
         then Inl (RuntimeError (Invalid_block_header block_size))
         else if length index \<ge> index_capacity \<and> \<not> alloc_ok pf Index_array (index_capacity * 2)
         then Inl MemoryError
         else Inr (in_offset + unat (of_nat HEADER_SIZE + comp_size),
                   (total_uncompressed_size + unat block_size) mod 2 ^ 64,
                   (if length index \<ge> index_capacity then index_capacity * 2 else index_capacity),
                   index @ [\<lparr>blk_in_offset = in_offset + HEADER_SIZE,
                              blk_out_offset = total_uncompressed_size,
                              blk_comp_size = comp_size, blk_orig_size = block_size\<rparr>]))"

text \<open>
  The loop of pass 1. It need not terminate: the advance of \<open>index_step\<close> is a 32-bit
  sum, which is 0 for \<open>comp_size = 0xFFFFFFF8\<close>. \<open>None\<close> is the run that never returns.
\<close>

partial_function (option) build_index ::
  "platform \<Rightarrow> byte list \<Rightarrow> nat \<Rightarrow> nat \<Rightarrow> nat \<Rightarrow> BlockIndex list
     \<Rightarrow> (error + (nat \<times> nat \<times> BlockIndex list)) option" where
  "build_index pf in_data in_offset total_uncompressed_size index_capacity index =
     (if in_offset + HEADER_SIZE \<le> length in_data
      then (case index_step pf in_data in_offset total_uncompressed_size index_capacity index of
              Inl err \<Rightarrow> Some (Inl err)
            | Inr (in_offset', total', capacity', index') \<Rightarrow>
                build_index pf in_data in_offset' total' capacity' index')
      else Some (Inr (in_offset, total_uncompressed_size, index)))"

text \<open>
  The body of the parallel loop of pass 2 for iteration \<open>i\<close> and its index entry, on the
  output buffer and \<open>error_flag\<close>. The model runs the entries in index order. On a size
  mismatch the thread that runs the iteration calls \<open>PyErr_Occurred\<close> and \<open>PyErr_Format\<close>
  before it sets \<open>error_flag\<close>: \<open>Inl Segfault\<close> where the call is fatal.
\<close>

definition decode_block ::
  "lz4 \<Rightarrow> platform \<Rightarrow> byte list \<Rightarrow> nat \<Rightarrow> byte list \<times> bool \<Rightarrow> BlockIndex
     \<Rightarrow> error + byte list \<times> bool" where
  "decode_block lz pf in_data i st block =
     (case st of (out_data, error_flag) \<Rightarrow>
        if error_flag then Inr (out_data, error_flag)
        else
          let in_ptr = drop (blk_in_offset block) in_data
          in if blk_comp_size block = blk_orig_size block
             then Inr (memcpy out_data (blk_out_offset block)
                         (take (unat (blk_orig_size block)) in_ptr),
                       error_flag)
             else
               let res = LZ4_decompress_safe lz (take (unat (blk_comp_size block)) in_ptr)
                           (sint (blk_comp_size block)) (sint (blk_orig_size block));
                   decomp_size = (case res of Inl code \<Rightarrow> code | Inr written \<Rightarrow> int (length written));
                   out_data' = (case res of Inl code \<Rightarrow> out_data
                                | Inr written \<Rightarrow> memcpy out_data (blk_out_offset block) written)
               in if decomp_size \<noteq> sint (blk_orig_size block)
                  then (if pyerr_callable pf i then Inr (out_data', True) else Inl Segfault)
                  else Inr (out_data', error_flag))"

fun decode_blocks ::
  "lz4 \<Rightarrow> platform \<Rightarrow> byte list \<Rightarrow> nat \<Rightarrow> BlockIndex list \<Rightarrow> byte list \<times> bool
     \<Rightarrow> error + byte list \<times> bool" where
  "decode_blocks lz pf in_data i [] st = Inr st"
| "decode_blocks lz pf in_data i (block # index) st =
     (case decode_block lz pf in_data i st block of
        Inl err \<Rightarrow> Inl err
      | Inr st' \<Rightarrow> decode_blocks lz pf in_data (Suc i) index st')"

text \<open>
  \<open>None\<close> is the call that runs forever, \<open>Some\<close> the call that ends: with the bytes, or
  without data.
\<close>

definition decompress_hybrid :: "lz4 \<Rightarrow> platform \<Rightarrow> byte list \<Rightarrow> (error + byte list) option" where
  "decompress_hybrid lz pf in_data =
     (if \<not> alloc_ok pf Index_array 1024 then Some (Inl MemoryError)
      else
        (case build_index pf in_data 0 0 1024 [] of
           None \<Rightarrow> None
         | Some (Inl err) \<Rightarrow> Some (Inl err)
         | Some (Inr (in_offset, total_uncompressed_size, index)) \<Rightarrow>
             if in_offset \<noteq> length in_data then Some (Inl (RuntimeError Trailing_data))
             else if \<not> alloc_ok pf Decoded_output total_uncompressed_size
             then Some (Inl MemoryError)
             else
               (case decode_blocks lz pf in_data 0 index
                       (uninit pf total_uncompressed_size, False) of
                  Inl err \<Rightarrow> Some (Inl err)
                | Inr (out, error_flag) \<Rightarrow>
                    if error_flag then Some (Inl (RuntimeError LZ4_size_mismatch))
                    else Some (Inr out))))"

section \<open>Notions used to state the properties\<close>

text \<open>No allocation request fails.\<close>

definition no_alloc_failure :: "platform \<Rightarrow> bool" where
  "no_alloc_failure pf = (\<forall>site n. alloc_ok pf site n)"

text \<open>
  The frame of a block on the wire: \<open>original_size\<close> in bytes 0 to 3, \<open>stored_size\<close> in
  bytes 4 to 7, then the payload.
\<close>

definition frame_of :: "endian \<Rightarrow> BlockResult \<Rightarrow> byte list" where
  "frame_of e r = store_u32 e (of_nat (orig_size r)) @ store_u32 e (of_int (comp_size r)) @ comp_buf r"

text \<open>What holds of every block result the encoder produces for a block size it accepts.\<close>

definition emitted :: "BlockResult \<Rightarrow> bool" where
  "emitted r = (orig_size r \<le> MAX_BLOCK_SIZE \<and> 0 \<le> comp_size r \<and> comp_size r \<le> int (orig_size r)
                \<and> int (length (comp_buf r)) = comp_size r)"

text \<open>
  The index that a sequence of frames describes, for frames that start at input position
  \<open>pos\<close> and decode to output position \<open>tot\<close>.
\<close>

fun index_of_frames :: "nat \<Rightarrow> nat \<Rightarrow> BlockResult list \<Rightarrow> BlockIndex list" where
  "index_of_frames pos tot [] = []"
| "index_of_frames pos tot (r # rs) =
     \<lparr>blk_in_offset = pos + HEADER_SIZE, blk_out_offset = tot,
      blk_comp_size = of_int (comp_size r), blk_orig_size = of_nat (orig_size r)\<rparr>
     # index_of_frames (pos + HEADER_SIZE + length (comp_buf r)) (tot + orig_size r) rs"

text \<open>
  The contract of the LZ4 library that the round trip needs: a block that was compressed
  to fewer bytes than it has is decompressed to itself, given its compressed and its
  original size.
\<close>

definition lz4_round_trip :: "lz4 \<Rightarrow> bool" where
  "lz4_round_trip lz =
     (\<forall>src. 0 < length src \<and> length src \<le> MAX_BLOCK_SIZE \<longrightarrow>
        (let dst = LZ4_compress_default lz src (LZ4_compressBound lz (int (length src)))
         in 0 < length dst \<and> length dst < length src \<longrightarrow>
            LZ4_decompress_safe lz dst (int (length dst)) (int (length src)) = Inr src))"

definition decodes_to :: "lz4 \<Rightarrow> BlockResult \<Rightarrow> byte list \<Rightarrow> bool" where
  "decodes_to lz r d =
     (length d = orig_size r \<and>
      (if comp_size r = int (orig_size r) then comp_buf r = d
       else LZ4_decompress_safe lz (comp_buf r) (comp_size r) (int (orig_size r)) = Inr d))"

text \<open>
  The states of the loop of pass 1 that an execution of \<open>decompress_hybrid\<close> goes
  through: the state after the first \<open>malloc\<close>, and the state after every iteration
  that does not return.
\<close>

inductive index_reach :: "platform \<Rightarrow> byte list \<Rightarrow> nat \<times> nat \<times> nat \<times> BlockIndex list \<Rightarrow> bool"
  for pf :: platform and in_data :: "byte list" where
  start: "alloc_ok pf Index_array 1024 \<Longrightarrow> index_reach pf in_data (0, 0, 1024, [])"
| step: "index_reach pf in_data (in_offset, tot, cap, idx) \<Longrightarrow>
         in_offset + HEADER_SIZE \<le> length in_data \<Longrightarrow>
         index_step pf in_data in_offset tot cap idx = Inr s' \<Longrightarrow>
         index_reach pf in_data s'"

text \<open>The call of the decompressor that pass 2 makes for an index entry, and its result.\<close>

definition block_payload :: "byte list \<Rightarrow> BlockIndex \<Rightarrow> byte list" where
  "block_payload in_data block = take (unat (blk_comp_size block)) (drop (blk_in_offset block) in_data)"

definition decomp_size_of :: "lz4 \<Rightarrow> byte list \<Rightarrow> BlockIndex \<Rightarrow> int" where
  "decomp_size_of lz in_data block =
     (case LZ4_decompress_safe lz (block_payload in_data block)
             (sint (blk_comp_size block)) (sint (blk_orig_size block)) of
        Inl code \<Rightarrow> code
      | Inr written \<Rightarrow> int (length written))"

text \<open>
  The entries of an index follow one another without gap or overlap, from input position
  \<open>pos\<close> and output position \<open>tot\<close> to \<open>pos'\<close> and \<open>tot'\<close>: the header of an entry starts
  where the payload of the entry before it ends, and its output region starts where the
  output region of the entry before it ends.
\<close>

fun tiles :: "nat \<Rightarrow> nat \<Rightarrow> BlockIndex list \<Rightarrow> nat \<Rightarrow> nat \<Rightarrow> bool" where
  "tiles pos tot [] pos' tot' = (pos' = pos \<and> tot' = tot)"
| "tiles pos tot (b # bs) pos' tot' =
     (blk_in_offset b = pos + HEADER_SIZE \<and> blk_out_offset b = tot \<and>
      tiles (blk_in_offset b + unat (blk_comp_size b)) (blk_out_offset b + unat (blk_orig_size b))
        bs pos' tot')"

subsection \<open>A concrete environment for evaluation\<close>

text \<open>
  A platform on which every allocation succeeds, fresh memory holds \<open>0xAA\<close>, the
  interpreter is older than CPython 3.12 and the calling thread runs every iteration; the
  same platform with CPython 3.12 and a team of two threads, where the calling thread runs
  iteration 0 of a parallel loop and the other thread the iterations after it; and a small
  codec in the place of LZ4: a block of 3 to 255 equal bytes is compressed to the byte and
  the count, everything else is not compressed.
\<close>

definition ideal_platform :: "endian \<Rightarrow> platform" where
  "ideal_platform e =
     \<lparr>byte_order = e, alloc_ok = (\<lambda>site n. True), fresh = (\<lambda>k. 0xAA),
      strict_format = False, tstate_thread_local = False, on_calling_thread = (\<lambda>i. True)\<rparr>"

definition cpython312_platform :: "endian \<Rightarrow> platform" where
  "cpython312_platform e =
     \<lparr>byte_order = e, alloc_ok = (\<lambda>site n. True), fresh = (\<lambda>k. 0xAA),
      strict_format = True, tstate_thread_local = True, on_calling_thread = (\<lambda>i. i = 0)\<rparr>"

definition run_compress :: "byte list \<Rightarrow> int \<Rightarrow> byte list" where
  "run_compress src dstCapacity =
     (case src of
        [] \<Rightarrow> []
      | b # bs \<Rightarrow>
          if list_all (\<lambda>x. x = b) bs \<and> length src < 256 \<and> 2 \<le> dstCapacity
          then [b, of_nat (length src)] else [])"

definition run_decompress :: "byte list \<Rightarrow> int \<Rightarrow> int \<Rightarrow> int + byte list" where
  "run_decompress src compressedSize dstCapacity =
     (case src of
        [b, k] \<Rightarrow>
          if compressedSize = 2 \<and> int (unat k) \<le> dstCapacity
          then Inr (replicate (unat k) b) else Inl (- 1)
      | _ \<Rightarrow> Inl (- 1))"

definition run_lz4 :: lz4 where
  "run_lz4 = \<lparr>LZ4_compressBound = (\<lambda>n. n + n div 255 + 16),
              LZ4_compress_default = run_compress,
              LZ4_decompress_safe = run_decompress\<rparr>"

text \<open>
  A stream of one frame and \<open>2 ^ 32 + 7\<close> bytes: \<open>original_size\<close> 0, \<open>stored_size\<close>
  \<open>0xFFFFFFFF\<close>, and a payload of \<open>2 ^ 32 - 1\<close> zero bytes. \<open>empty_block\<close> is the block
  result whose frame is eight zero bytes.
\<close>

definition wrapping_stream :: "byte list" where
  "wrapping_stream =
     store_u32 LittleEndian 0 @ store_u32 LittleEndian 0xFFFFFFFF @ replicate (2 ^ 32 - 1) 0"

definition empty_block :: BlockResult where
  "empty_block = \<lparr>offset_in = 0, orig_size = 0, comp_size = 0, comp_buf = []\<rparr>"

section \<open>Auxiliary facts\<close>

lemma le_word_le_bytes: "le_word (le_bytes w) = w"
  unfolding le_bytes_def
  apply simp
  apply (rule bit_word_eqI)
  apply (auto simp add: bit_simps)
  subgoal for n by (cases "n < 24") simp_all
  done

lemma length_store_u32 [simp]: "length (store_u32 e w) = 4"
  by (cases e) (simp_all add: store_u32_def le_bytes_def)

lemma load_store_u32 [simp]: "load_u32 e (store_u32 e w) = w"
  by (cases e) (simp_all add: store_u32_def load_u32_def le_word_le_bytes)

lemma length_memcpy [simp]: "length (memcpy buf off src) = length buf"
  by (simp add: memcpy_def)

lemma memcpy_mid:
  "length a = off \<Longrightarrow> length x = length src \<Longrightarrow> memcpy (a @ x @ z) off src = a @ src @ z"
  by (simp add: memcpy_def)

lemma length_write_frames [simp]: "length (write_frames e rs out off) = length out"
  by (induction rs arbitrary: out off) (simp_all add: Let_def)

lemma num_blocks_upper: "0 < S \<Longrightarrow> N \<le> num_blocks_of N S * S"
proof -
  assume s: "0 < S"
  have "N + S - 1 = (N + S - 1) div S * S + (N + S - 1) mod S" by simp
  moreover have "(N + S - 1) mod S \<le> S - 1" using s by (simp add: less_Suc_eq_le Suc_pred' flip: less_Suc_eq_le)
  ultimately show ?thesis unfolding num_blocks_of_def using s by linarith
qed

lemma num_blocks_lower: "0 < S \<Longrightarrow> num_blocks_of N S * S < N + S"
proof -
  assume s: "0 < S"
  have "(N + S - 1) div S * S \<le> N + S - 1" by simp
  then show ?thesis unfolding num_blocks_of_def using s by linarith
qed

lemma num_blocks_ceiling:
  assumes "0 < S"
  shows "int (num_blocks_of N S) = \<lceil>real N / real S\<rceil>"
proof (rule sym, rule ceiling_unique)
  have "real (num_blocks_of N S * S) < real (N + S)"
    using num_blocks_lower [OF assms, of N] by (simp only: of_nat_less_iff)
  then have "(real (num_blocks_of N S) - 1) * real S < real N"
    by (simp add: algebra_simps)
  then show "of_int (int (num_blocks_of N S)) - 1 < real N / real S"
    using assms by (simp add: pos_less_divide_eq)
  have "real N \<le> real (num_blocks_of N S * S)"
    using num_blocks_upper [OF assms, of N] by (simp only: of_nat_le_iff)
  then show "real N / real S \<le> of_int (int (num_blocks_of N S))"
    using assms by (simp add: pos_divide_le_eq)
qed

lemma block_start_in_range:
  assumes "0 < S" "i < num_blocks_of N S"
  shows "i * S < N"
proof -
  have "Suc i * S \<le> num_blocks_of N S * S"
    using assms(2) by (intro mult_le_mono1) simp
  with num_blocks_lower [OF assms(1), of N] show ?thesis by simp
qed

lemma full_block_in_range:
  assumes "0 < S" "Suc i < num_blocks_of N S"
  shows "i * S + S \<le> N"
  using block_start_in_range [OF assms] by simp

lemma compress_results_nth:
  assumes "i < num_blocks_of (length in_data) block_size"
  shows "compress_results lz pf in_data block_size ! i = compress_block lz pf in_data block_size i"
  using assms by (simp add: compress_results_def)

lemma split_length:
  "length x = n + m \<Longrightarrow> \<exists>u v. x = u @ v \<and> length u = n \<and> length v = m"
  by (rule exI [of _ "take n x"], rule exI [of _ "drop n x"]) simp

lemma unat_of_nat32: "n < 2 ^ 32 \<Longrightarrow> unat (of_nat n :: uint32_t) = n"
  by (simp add: unat_of_nat)

lemma sint_of_nat32: "n < 2 ^ 31 \<Longrightarrow> sint (of_nat n :: uint32_t) = int n"
  by (simp add: signed_of_nat signed_take_bit_int_eq_self)

lemma emitted_unat_orig:
  "emitted r \<Longrightarrow> unat (of_nat (orig_size r) :: uint32_t) = orig_size r"
  by (rule unat_of_nat32) (simp add: emitted_def MAX_BLOCK_SIZE_def)

lemma emitted_of_int_comp:
  "emitted r \<Longrightarrow> (of_int (comp_size r) :: uint32_t) = of_nat (length (comp_buf r))"
proof -
  assume "emitted r"
  then have "comp_size r = int (length (comp_buf r))" by (simp add: emitted_def)
  then show ?thesis by (simp only: of_int_of_nat_eq)
qed

lemma emitted_length_le:
  "emitted r \<Longrightarrow> length (comp_buf r) \<le> 2 ^ 29"
  by (simp add: emitted_def MAX_BLOCK_SIZE_def)

lemma emitted_unat_comp:
  assumes "emitted r"
  shows "unat (of_int (comp_size r) :: uint32_t) = length (comp_buf r)"
  using emitted_length_le [OF assms]
  by (simp add: emitted_of_int_comp [OF assms] unat_of_nat32)

lemma emitted_unat_advance:
  assumes "emitted r"
  shows "unat (8 + of_int (comp_size r) :: uint32_t) = 8 + length (comp_buf r)"
proof -
  have "(8 + of_int (comp_size r) :: uint32_t) = of_nat (8 + length (comp_buf r))"
    by (simp add: emitted_of_int_comp [OF assms])
  moreover have "8 + length (comp_buf r) < 2 ^ 32"
    using emitted_length_le [OF assms] by simp
  ultimately show ?thesis by (simp only: unat_of_nat32)
qed

lemma length_frame_of: "length (frame_of e r) = 8 + length (comp_buf r)"
  by (simp add: frame_of_def)

lemma emitted_total:
  "list_all emitted rs \<Longrightarrow> total_comp_size_of rs = length (concat (map (frame_of e) rs))"
  by (induction rs) (auto simp add: total_comp_size_of_def length_frame_of emitted_def HEADER_SIZE_def)

lemma write_frames_tiles:
  assumes "list_all emitted rs" and "length a = off" and "length x = total_comp_size_of rs"
  shows "write_frames e rs (a @ x @ z) off = a @ concat (map (frame_of e) rs) @ z"
  using assms
proof (induction rs arbitrary: a x off)
  case Nil
  then show ?case by (simp add: total_comp_size_of_def)
next
  case (Cons r rs)
  from Cons.prems(1) have em: "emitted r" and ems: "list_all emitted rs" by simp_all
  have len: "length x = 4 + (4 + (length (comp_buf r) + total_comp_size_of rs))"
    using Cons.prems(3) em by (auto simp add: total_comp_size_of_def emitted_def HEADER_SIZE_def)
  from split_length [OF len] obtain h1 x1 where x: "x = h1 @ x1" and h1: "length h1 = 4"
    and x1: "length x1 = 4 + (length (comp_buf r) + total_comp_size_of rs)" by blast
  from split_length [OF x1] obtain h2 x2 where x1': "x1 = h2 @ x2" and h2: "length h2 = 4"
    and x2: "length x2 = length (comp_buf r) + total_comp_size_of rs" by blast
  from split_length [OF x2] obtain p x3 where x2': "x2 = p @ x3" and p: "length p = length (comp_buf r)"
    and x3: "length x3 = total_comp_size_of rs" by blast
  let ?s1 = "store_u32 e (of_nat (orig_size r))"
  let ?s2 = "store_u32 e (of_int (comp_size r))"
  have w1: "memcpy (a @ x @ z) off ?s1 = a @ ?s1 @ (h2 @ p @ x3 @ z)"
    using memcpy_mid [of a off h1 ?s1 "h2 @ p @ x3 @ z"] Cons.prems(2) h1
    by (simp add: x x1' x2')
  have w2: "memcpy (a @ ?s1 @ (h2 @ p @ x3 @ z)) (off + 4) ?s2 = (a @ ?s1) @ ?s2 @ (p @ x3 @ z)"
    using memcpy_mid [of "a @ ?s1" "off + 4" h2 ?s2 "p @ x3 @ z"] Cons.prems(2) h2 by simp
  have w3: "memcpy ((a @ ?s1) @ ?s2 @ (p @ x3 @ z)) (off + 8) (comp_buf r)
              = (a @ frame_of e r) @ x3 @ z"
    using memcpy_mid [of "a @ ?s1 @ ?s2" "off + 8" p "comp_buf r" "x3 @ z"] Cons.prems(2) p
    by (simp add: frame_of_def)
  have ih: "write_frames e rs ((a @ frame_of e r) @ x3 @ z) (off + (8 + length (comp_buf r)))
              = (a @ frame_of e r) @ concat (map (frame_of e) rs) @ z"
    by (rule Cons.IH [OF ems _ x3]) (simp add: length_frame_of Cons.prems(2))
  show ?case
    by (simp add: Let_def emitted_unat_comp [OF em] emitted_unat_advance [OF em] w1 w2 w3 ih
        HEADER_SIZE_def del: append_assoc)
qed

lemma load_header_orig:
  "load_u32 e (take 4 (frame_of e r)) = of_nat (orig_size r)"
  by (simp add: frame_of_def)

lemma load_header_comp:
  "load_u32 e (take 4 (drop 4 (frame_of e r))) = of_int (comp_size r)"
  by (simp add: frame_of_def)

lemma index_step_frame:
  assumes "emitted r" and "no_alloc_failure pf" and "tot + orig_size r < 2 ^ 64"
  shows "index_step pf (pre @ frame_of (byte_order pf) r @ rest) (length pre) tot cap idx
         = Inr (length pre + length (frame_of (byte_order pf) r), tot + orig_size r,
                (if length idx \<ge> cap then cap * 2 else cap),
                idx @ [\<lparr>blk_in_offset = length pre + HEADER_SIZE, blk_out_offset = tot,
                         blk_comp_size = of_int (comp_size r), blk_orig_size = of_nat (orig_size r)\<rparr>])"
proof -
  have a: "\<not> MAX_BLOCK_SIZE < orig_size r" using assms(1) by (simp add: emitted_def)
  show ?thesis
    using assms(2,3) a
    by (simp add: index_step_def Let_def load_header_orig load_header_comp
        emitted_unat_orig [OF assms(1)] emitted_unat_comp [OF assms(1)]
        emitted_unat_advance [OF assms(1)] length_frame_of no_alloc_failure_def HEADER_SIZE_def)
qed

lemma build_index_frames:
  assumes "list_all emitted rs" and "no_alloc_failure pf"
    and "tot + sum_list (map orig_size rs) < 2 ^ 64"
  shows "build_index pf (pre @ concat (map (frame_of (byte_order pf)) rs)) (length pre) tot cap idx
         = Some (Inr (length pre + length (concat (map (frame_of (byte_order pf)) rs)),
                      tot + sum_list (map orig_size rs),
                      idx @ index_of_frames (length pre) tot rs))"
  using assms
proof (induction rs arbitrary: pre tot cap idx)
  case Nil
  show ?case by (subst build_index.simps) (simp add: HEADER_SIZE_def)
next
  case (Cons r rs)
  let ?e = "byte_order pf"
  let ?rest = "concat (map (frame_of ?e) rs)"
  from Cons.prems(1) have em: "emitted r" and ems: "list_all emitted rs" by simp_all
  have tot: "tot + orig_size r < 2 ^ 64" using Cons.prems(3) by simp
  have tot': "(tot + orig_size r) + sum_list (map orig_size rs) < 2 ^ 64"
    using Cons.prems(3) by simp
  define cap' where "cap' = (if length idx \<ge> cap then cap * 2 else cap)"
  define idx' where "idx' = idx @ [\<lparr>blk_in_offset = length pre + HEADER_SIZE, blk_out_offset = tot,
      blk_comp_size = of_int (comp_size r), blk_orig_size = of_nat (orig_size r)\<rparr>]"
  have step: "build_index pf (pre @ frame_of ?e r @ ?rest) (length pre) tot cap idx
        = build_index pf (pre @ frame_of ?e r @ ?rest) (length pre + (8 + length (comp_buf r)))
            (tot + orig_size r) cap' idx'"
    by (subst build_index.simps)
       (simp add: index_step_frame [OF em Cons.prems(2) tot] length_frame_of HEADER_SIZE_def
          cap'_def idx'_def)
  have ih: "build_index pf (pre @ frame_of ?e r @ ?rest) (length pre + (8 + length (comp_buf r)))
              (tot + orig_size r) cap' idx'
            = Some (Inr (length pre + (8 + length (comp_buf r)) + length ?rest,
                         (tot + orig_size r) + sum_list (map orig_size rs),
                         idx' @ index_of_frames (length pre + (8 + length (comp_buf r)))
                                  (tot + orig_size r) rs))"
    using Cons.IH [OF ems Cons.prems(2) tot', of "pre @ frame_of ?e r" cap' idx']
    by (simp add: length_frame_of)
  show ?case
    using step ih by (simp add: idx'_def length_frame_of HEADER_SIZE_def add.assoc)
qed

lemma emitted_word_eq:
  assumes "emitted r"
  shows "((of_int (comp_size r) :: uint32_t) = of_nat (orig_size r)) = (comp_size r = int (orig_size r))"
proof
  assume "(of_int (comp_size r) :: uint32_t) = of_nat (orig_size r)"
  then have "unat (of_int (comp_size r) :: uint32_t) = unat (of_nat (orig_size r) :: uint32_t)"
    by simp
  then have "length (comp_buf r) = orig_size r"
    by (simp only: emitted_unat_comp [OF assms] emitted_unat_orig [OF assms])
  then show "comp_size r = int (orig_size r)" using assms by (simp add: emitted_def)
next
  assume "comp_size r = int (orig_size r)"
  then show "(of_int (comp_size r) :: uint32_t) = of_nat (orig_size r)" by simp
qed

lemma emitted_sint_orig:
  "emitted r \<Longrightarrow> sint (of_nat (orig_size r) :: uint32_t) = int (orig_size r)"
  by (rule sint_of_nat32) (simp add: emitted_def MAX_BLOCK_SIZE_def)

lemma emitted_sint_comp:
  assumes "emitted r"
  shows "sint (of_int (comp_size r) :: uint32_t) = comp_size r"
proof -
  have "sint (of_nat (length (comp_buf r)) :: uint32_t) = int (length (comp_buf r))"
    using emitted_length_le [OF assms] by (intro sint_of_nat32) simp
  then show ?thesis using assms by (simp add: emitted_of_int_comp [OF assms] emitted_def)
qed

lemma payload_of_frame:
  "take (length (comp_buf r)) (drop (length pre + 8) (pre @ frame_of e r @ rest)) = comp_buf r"
  by (simp add: frame_of_def)

lemma decode_block_frame:
  assumes "emitted r" and "decodes_to lz r d" and "length a = tot" and "length x = length d"
  shows "decode_block lz pf (pre @ frame_of e r @ rest) i (a @ x @ z, False)
           \<lparr>blk_in_offset = length pre + HEADER_SIZE, blk_out_offset = tot,
            blk_comp_size = of_int (comp_size r), blk_orig_size = of_nat (orig_size r)\<rparr>
         = Inr (a @ d @ z, False)"
proof (cases "comp_size r = int (orig_size r)")
  case True
  with assms(1,2) have d: "comp_buf r = d" and len: "length (comp_buf r) = orig_size r"
    by (simp_all add: decodes_to_def emitted_def)
  have "take (length (comp_buf r)) (drop (length pre + 8) (pre @ frame_of e r @ rest)) = comp_buf r"
    by (rule payload_of_frame)
  then have p: "take (orig_size r) (drop (length pre + 8) (pre @ frame_of e r @ rest)) = d"
    by (simp only: len) (simp only: d)
  show ?thesis
    using True assms(3) assms(4)
    by (simp add: decode_block_def Let_def emitted_unat_orig [OF assms(1)] HEADER_SIZE_def p
        memcpy_mid del: drop_append take_append)
next
  case False
  with assms(2) have d: "LZ4_decompress_safe lz (comp_buf r) (comp_size r) (int (orig_size r)) = Inr d"
    and len: "length d = orig_size r"
    by (simp_all add: decodes_to_def)
  have ne: "(of_int (comp_size r) :: uint32_t) \<noteq> of_nat (orig_size r)"
    using False by (simp add: emitted_word_eq [OF assms(1)])
  show ?thesis
    using assms(3) assms(4) ne
    by (simp add: decode_block_def Let_def emitted_unat_comp [OF assms(1)]
        emitted_sint_comp [OF assms(1)] emitted_sint_orig [OF assms(1)] HEADER_SIZE_def
        payload_of_frame d len memcpy_mid del: drop_append take_append)
qed

lemma decode_blocks_frames:
  assumes "list_all emitted rs" and "list_all2 (decodes_to lz) rs ds"
    and "length a = tot" and "length x = length (concat ds)"
  shows "decode_blocks lz pf (pre @ concat (map (frame_of e) rs)) i
           (index_of_frames (length pre) tot rs) (a @ x @ z, False)
         = Inr (a @ concat ds @ z, False)"
  using assms
proof (induction rs arbitrary: ds pre tot a x i)
  case Nil
  then show ?case by simp
next
  case (Cons r rs)
  from Cons.prems(2) obtain d ds' where ds: "ds = d # ds'" and d: "decodes_to lz r d"
    and ds': "list_all2 (decodes_to lz) rs ds'"
    by (auto simp add: list_all2_Cons1)
  from Cons.prems(1) have em: "emitted r" and ems: "list_all emitted rs" by simp_all
  have "length x = length d + length (concat ds')" using Cons.prems(4) ds by simp
  from split_length [OF this] obtain x1 x2 where x: "x = x1 @ x2" and x1: "length x1 = length d"
    and x2: "length x2 = length (concat ds')" by blast
  have len_d: "length d = orig_size r" using d by (simp add: decodes_to_def)
  have one: "decode_block lz pf (pre @ frame_of e r @ concat (map (frame_of e) rs)) i
           (a @ x1 @ (x2 @ z), False)
           \<lparr>blk_in_offset = length pre + HEADER_SIZE, blk_out_offset = tot,
            blk_comp_size = of_int (comp_size r), blk_orig_size = of_nat (orig_size r)\<rparr>
         = Inr (a @ d @ (x2 @ z), False)"
    by (rule decode_block_frame [OF em d Cons.prems(3) x1])
  have ih: "decode_blocks lz pf ((pre @ frame_of e r) @ concat (map (frame_of e) rs)) (Suc i)
              (index_of_frames (length (pre @ frame_of e r)) (tot + orig_size r) rs)
              ((a @ d) @ x2 @ z, False) = Inr ((a @ d) @ concat ds' @ z, False)"
    by (rule Cons.IH [OF ems ds' _ x2]) (simp add: Cons.prems(3) len_d)
  show ?case
    using one ih by (simp add: x ds length_frame_of HEADER_SIZE_def add.assoc)
qed

lemma concat_blocks:
  "concat (map (\<lambda>i. take S (drop (i * S) B)) [0..<n]) = take (n * S) B"
proof (induction n)
  case 0
  show ?case by simp
next
  case (Suc n)
  have "Suc n * S = n * S + S" by simp
  then have "take (Suc n * S) B = take (n * S) B @ take S (drop (n * S) B)"
    by (simp only: take_add)
  with Suc show ?case by simp
qed

lemma take_block:
  assumes "i * S < length B"
  shows "take (if i * S + S \<le> length B then S else length B - i * S) (drop (i * S) B)
         = take S (drop (i * S) B)"
    and "length (take S (drop (i * S) B)) = (if i * S + S \<le> length B then S else length B - i * S)"
  using assms by auto

lemma compress_block_eq:
  assumes "no_alloc_failure pf" and "0 < S" and "i < num_blocks_of (length B) S"
  shows "compress_block lz pf B S i =
    Some (let blk = take S (drop (i * S) B);
              dst = LZ4_compress_default lz blk (LZ4_compressBound lz (int (length blk)))
          in if 0 < length dst \<and> length dst < length blk
             then \<lparr>offset_in = i * S, orig_size = length blk, comp_size = int (length dst), comp_buf = dst\<rparr>
             else \<lparr>offset_in = i * S, orig_size = length blk, comp_size = int (length blk), comp_buf = blk\<rparr>)"
proof -
  have lt: "i * S < length B" by (rule block_start_in_range [OF assms(2,3)])
  show ?thesis
    using assms(1)
    by (simp add: compress_block_def Let_def no_alloc_failure_def take_block [OF lt]
        del: length_take length_drop)
qed

lemma block_nonempty:
  assumes "0 < S" and "i < num_blocks_of (length B) S"
  shows "0 < length (take S (drop (i * S) B))" and "length (take S (drop (i * S) B)) \<le> S"
  using block_start_in_range [OF assms] assms(1) by simp_all

lemma compress_block_emitted:
  assumes "no_alloc_failure pf" and "0 < S" and "S \<le> MAX_BLOCK_SIZE"
    and "i < num_blocks_of (length B) S"
  shows "emitted (the (compress_block lz pf B S i))"
    and "orig_size (the (compress_block lz pf B S i)) = length (take S (drop (i * S) B))"
    and "lz4_round_trip lz \<Longrightarrow> decodes_to lz (the (compress_block lz pf B S i)) (take S (drop (i * S) B))"
proof -
  let ?blk = "take S (drop (i * S) B)"
  have n: "0 < length ?blk" "length ?blk \<le> MAX_BLOCK_SIZE"
    using block_nonempty [OF assms(2,4)] assms(3) by simp_all
  show "emitted (the (compress_block lz pf B S i))"
    using n by (simp add: compress_block_eq [OF assms(1,2,4)] Let_def emitted_def
        del: length_take length_drop)
  show "orig_size (the (compress_block lz pf B S i)) = length ?blk"
    by (simp add: compress_block_eq [OF assms(1,2,4)] Let_def del: length_take length_drop)
  show "decodes_to lz (the (compress_block lz pf B S i)) ?blk" if "lz4_round_trip lz"
  proof -
    from that n have "let dst = LZ4_compress_default lz ?blk (LZ4_compressBound lz (int (length ?blk)))
         in 0 < length dst \<and> length dst < length ?blk \<longrightarrow>
            LZ4_decompress_safe lz dst (int (length dst)) (int (length ?blk)) = Inr ?blk"
      unfolding lz4_round_trip_def by blast
    then show ?thesis
      by (simp add: compress_block_eq [OF assms(1,2,4)] Let_def decodes_to_def
          del: length_take length_drop)
  qed
qed

lemma compress_results_no_failure:
  assumes "no_alloc_failure pf"
  shows "\<not> list_ex (\<lambda>r. r = None) (compress_results lz pf B S)"
  using assms
  by (auto simp add: compress_results_def list_ex_iff compress_block_def Let_def no_alloc_failure_def)

lemma map_the_compress_results:
  "map the (compress_results lz pf B S)
   = map (\<lambda>i. the (compress_block lz pf B S i)) [0..<num_blocks_of (length B) S]"
  by (simp add: compress_results_def)

lemma results_emitted:
  assumes "no_alloc_failure pf" and "0 < S" and "S \<le> MAX_BLOCK_SIZE"
  shows "list_all emitted (map the (compress_results lz pf B S))"
  using compress_block_emitted(1) [OF assms]
  by (simp add: map_the_compress_results list_all_iff)

lemma results_decodes_to:
  assumes "no_alloc_failure pf" and "0 < S" and "S \<le> MAX_BLOCK_SIZE" and "lz4_round_trip lz"
  shows "list_all2 (decodes_to lz) (map the (compress_results lz pf B S))
           (map (\<lambda>i. take S (drop (i * S) B)) [0..<num_blocks_of (length B) S])"
  using compress_block_emitted(3) [OF assms(1-3) _ assms(4)]
  by (simp add: map_the_compress_results list_all2_map1 list_all2_map2 list_all2_same)

lemma concat_all_blocks:
  assumes "0 < S"
  shows "concat (map (\<lambda>i. take S (drop (i * S) B)) [0..<num_blocks_of (length B) S]) = B"
  using num_blocks_upper [OF assms, of "length B"] by (simp add: concat_blocks)

lemma results_orig_sizes:
  assumes "no_alloc_failure pf" and "0 < S" and "S \<le> MAX_BLOCK_SIZE"
  shows "map orig_size (map the (compress_results lz pf B S))
         = map length (map (\<lambda>i. take S (drop (i * S) B)) [0..<num_blocks_of (length B) S])"
  using compress_block_emitted(2) [OF assms]
  by (simp add: map_the_compress_results del: length_take length_drop)

lemma results_orig_total:
  assumes "no_alloc_failure pf" and "0 < S" and "S \<le> MAX_BLOCK_SIZE"
  shows "sum_list (map orig_size (map the (compress_results lz pf B S))) = length B"
proof -
  have "sum_list (map length (map (\<lambda>i. take S (drop (i * S) B)) [0..<num_blocks_of (length B) S]))
        = length (concat (map (\<lambda>i. take S (drop (i * S) B)) [0..<num_blocks_of (length B) S]))"
    by (simp only: length_concat)
  then show ?thesis
    by (simp only: results_orig_sizes [OF assms] concat_all_blocks [OF assms(2)])
qed

lemma compress_hybrid_frames:
  assumes "no_alloc_failure pf" and "0 < S" and "S \<le> MAX_BLOCK_SIZE"
  shows "compress_hybrid lz pf B S
         = Inr (concat (map (frame_of (byte_order pf)) (map the (compress_results lz pf B S))))"
proof -
  let ?rs = "map the (compress_results lz pf B S)"
  have em: "list_all emitted ?rs" by (rule results_emitted [OF assms])
  have "write_frames (byte_order pf) ?rs ([] @ uninit pf (total_comp_size_of ?rs) @ []) 0
        = [] @ concat (map (frame_of (byte_order pf)) ?rs) @ []"
    by (rule write_frames_tiles [OF em]) (simp_all add: uninit_def)
  then have w: "write_frames (byte_order pf) ?rs (uninit pf (total_comp_size_of ?rs)) 0
        = concat (map (frame_of (byte_order pf)) ?rs)" by simp
  show ?thesis
    using assms compress_results_no_failure [OF assms(1), of lz B S]
    by (simp add: compress_hybrid_def Let_def w no_alloc_failure_def)
qed

lemma ideal_no_alloc_failure: "no_alloc_failure (ideal_platform e)"
  by (simp add: no_alloc_failure_def ideal_platform_def)

lemma run_compress_cases:
  "run_compress src cap = [] \<or>
   (\<exists>b n. src = replicate n b \<and> 0 < n \<and> n < 256 \<and> run_compress src cap = [b, of_nat n])"
proof (cases src)
  case Nil
  then show ?thesis by (simp add: run_compress_def)
next
  case (Cons b bs)
  show ?thesis
  proof (cases "list_all (\<lambda>x. x = b) bs \<and> length src < 256 \<and> 2 \<le> cap")
    case True
    then have "bs = replicate (length bs) b"
      by (simp add: list_all_iff replicate_length_same)
    then have "src = replicate (Suc (length bs)) b" using Cons by simp
    with True Cons show ?thesis
      by (intro disjI2 exI [of _ b] exI [of _ "Suc (length bs)"]) (simp add: run_compress_def)
  next
    case False
    then have "run_compress src cap = []" using Cons by (auto simp add: run_compress_def)
    then show ?thesis by blast
  qed
qed

lemma run_lz4_round_trip: "lz4_round_trip run_lz4"
  unfolding lz4_round_trip_def
proof (intro allI impI)
  fix src :: "byte list"
  assume "0 < length src \<and> length src \<le> MAX_BLOCK_SIZE"
  let ?cap = "LZ4_compressBound run_lz4 (int (length src))"
  from run_compress_cases [of src ?cap]
  show "let dst = LZ4_compress_default run_lz4 src ?cap
        in 0 < length dst \<and> length dst < length src \<longrightarrow>
           LZ4_decompress_safe run_lz4 dst (int (length dst)) (int (length src)) = Inr src"
  proof
    assume "run_compress src ?cap = []"
    then show ?thesis by (simp add: run_lz4_def)
  next
    assume "\<exists>b n. src = replicate n b \<and> 0 < n \<and> n < 256 \<and> run_compress src ?cap = [b, of_nat n]"
    then obtain b n where src: "src = replicate n b" and n: "0 < n" "n < 256"
      and c: "run_compress src ?cap = [b, of_nat n]" by blast
    have "uint (of_nat n :: byte) = int n"
      using n by (simp add: unsigned_of_nat take_bit_nat_eq_self)
    moreover have "unat (of_nat n :: byte) = n" using n by (simp add: unat_of_nat)
    ultimately show ?thesis using c src
      by (simp add: run_lz4_def run_decompress_def)
  qed
qed

lemma frames_length:
  assumes "list_all emitted rs"
  shows "length (concat (map (frame_of e) rs))
           = sum_list (map (\<lambda>r. nat (comp_size r) + HEADER_SIZE) rs)"
    and "length (concat (map (frame_of e) rs)) \<le> sum_list (map orig_size rs) + length rs * HEADER_SIZE"
  using assms
  by (induction rs) (auto simp add: length_frame_of emitted_def HEADER_SIZE_def)

lemma index_of_frames_length: "length (index_of_frames p t rs) = length rs"
  by (induction rs arbitrary: p t) simp_all

lemma index_of_frames_fields:
  "i < length rs \<Longrightarrow>
     blk_comp_size (index_of_frames p t rs ! i) = of_int (comp_size (rs ! i)) \<and>
     blk_orig_size (index_of_frames p t rs ! i) = of_nat (orig_size (rs ! i))"
proof (induction rs arbitrary: p t i)
  case Nil
  then show ?case by simp
next
  case (Cons r rs)
  then show ?case by (cases i) simp_all
qed

lemma index_reach_build_index:
  "index_reach pf in_data s \<Longrightarrow>
     alloc_ok pf Index_array 1024 \<and>
     build_index pf in_data 0 0 1024 []
       = (case s of (in_offset, tot, cap, idx) \<Rightarrow> build_index pf in_data in_offset tot cap idx)"
proof (induction rule: index_reach.induct)
  case start
  then show ?case by simp
next
  case (step in_offset tot cap idx s')
  obtain in_offset' tot' cap' idx' where s': "s' = (in_offset', tot', cap', idx')"
    by (cases s') auto
  have "build_index pf in_data in_offset tot cap idx = build_index pf in_data in_offset' tot' cap' idx'"
    using step.hyps(2,3) by (subst build_index.simps) (simp add: s')
  with step.IH show ?case by (simp add: s')
qed

lemma build_index_bad_header:
  assumes "in_offset + HEADER_SIZE \<le> length in_data"
    and "unat (load_u32 (byte_order pf) (take 4 (drop in_offset in_data))) > MAX_BLOCK_SIZE
         \<or> unat (load_u32 (byte_order pf) (take 4 (drop (in_offset + 4) in_data)))
              > length in_data - (in_offset + HEADER_SIZE)"
  shows "index_step pf in_data in_offset tot cap idx
           = Inl (RuntimeError (Invalid_block_header (load_u32 (byte_order pf) (take 4 (drop in_offset in_data)))))"
    and "build_index pf in_data in_offset tot cap idx
           = Some (Inl (RuntimeError (Invalid_block_header (load_u32 (byte_order pf) (take 4 (drop in_offset in_data))))))"
proof -
  show a: "index_step pf in_data in_offset tot cap idx
           = Inl (RuntimeError (Invalid_block_header (load_u32 (byte_order pf) (take 4 (drop in_offset in_data)))))"
    using assms(2) by (auto simp add: index_step_def Let_def)
  show "build_index pf in_data in_offset tot cap idx
           = Some (Inl (RuntimeError (Invalid_block_header (load_u32 (byte_order pf) (take 4 (drop in_offset in_data))))))"
    using assms(1) by (subst build_index.simps) (simp add: a)
qed

lemma build_index_exit:
  assumes "\<not> in_offset + HEADER_SIZE \<le> length in_data"
  shows "build_index pf in_data in_offset tot cap idx = Some (Inr (in_offset, tot, idx))"
  using assms by (subst build_index.simps) simp

lemma index_step_append:
  assumes "in_offset + HEADER_SIZE \<le> length in_data"
    and "index_step pf in_data in_offset tot cap idx = Inr s'"
  shows "index_step pf (in_data @ junk) in_offset tot cap idx = Inr s'"
proof -
  have a: "take 4 (drop in_offset (in_data @ junk)) = take 4 (drop in_offset in_data)"
    using assms(1) by (simp add: HEADER_SIZE_def)
  have b: "take 4 (drop (in_offset + 4) (in_data @ junk)) = take 4 (drop (in_offset + 4) in_data)"
    using assms(1) by (simp add: HEADER_SIZE_def)
  show ?thesis
    using assms
    unfolding index_step_def Let_def a b
    by (auto split: if_splits)
qed

lemma build_index_append:
  assumes "build_index pf in_data in_offset tot cap idx = Some y"
  shows "\<forall>t ix. y = Inr (length in_data, t, ix) \<longrightarrow> length junk < HEADER_SIZE \<longrightarrow>
           build_index pf (in_data @ junk) in_offset tot cap idx = Some y"
proof (rule build_index.raw_induct [where P = "\<lambda>pf in_data in_offset tot cap idx y.
          \<forall>t ix. y = Inr (length in_data, t, ix) \<longrightarrow> length junk < HEADER_SIZE \<longrightarrow>
             build_index pf (in_data @ junk) in_offset tot cap idx = Some y", OF _ assms], goal_cases)
  case (1 build_index' pf in_data in_offset tot cap idx y)
  show ?case
  proof (cases "in_offset + HEADER_SIZE \<le> length in_data")
    case True
    show ?thesis
    proof (cases "index_step pf in_data in_offset tot cap idx")
      case (Inl err)
      with 1(2) True show ?thesis by auto
    next
      case (Inr s')
      obtain in_offset' tot' cap' idx' where s': "s' = (in_offset', tot', cap', idx')"
        by (cases s') auto
      from 1(2) True Inr have rec: "build_index' pf in_data in_offset' tot' cap' idx' = Some y"
        by (simp add: s')
      have st: "index_step pf (in_data @ junk) in_offset tot cap idx = Inr s'"
        by (rule index_step_append [OF True Inr])
      have g: "in_offset + HEADER_SIZE \<le> length (in_data @ junk)" using True by simp
      have "build_index pf (in_data @ junk) in_offset tot cap idx
            = build_index pf (in_data @ junk) in_offset' tot' cap' idx'"
        using g by (subst build_index.simps) (simp add: st s')
      with 1(1) [OF rec] show ?thesis by simp
    qed
  next
    case False
    with 1(2) have y: "y = Inr (in_offset, tot, idx)" by simp
    show ?thesis
    proof (intro allI impI)
      fix t ix assume "y = Inr (length in_data, t, ix)" and j: "length junk < HEADER_SIZE"
      with y have io: "in_offset = length in_data" by simp
      have "\<not> in_offset + HEADER_SIZE \<le> length (in_data @ junk)" using io j by simp
      from build_index_exit [OF this] y
      show "build_index pf (in_data @ junk) in_offset tot cap idx = Some y" by simp
    qed
  qed
qed

lemma decompress_hybrid_Inr_index:
  assumes "decompress_hybrid lz pf in_data = Some (Inr out)"
  shows "alloc_ok pf Index_array 1024 \<and>
         (\<exists>t ix. build_index pf in_data 0 0 1024 [] = Some (Inr (length in_data, t, ix)))"
  using assms
  by (auto simp add: decompress_hybrid_def split: if_splits option.splits sum.splits prod.splits)

lemma decompress_hybrid_index_error:
  assumes "alloc_ok pf Index_array 1024" and "build_index pf in_data 0 0 1024 [] = Some (Inl err)"
  shows "decompress_hybrid lz pf in_data = Some (Inl err)"
  using assms by (simp add: decompress_hybrid_def)

lemma decompress_hybrid_trailing:
  assumes "alloc_ok pf Index_array 1024"
    and "build_index pf in_data 0 0 1024 [] = Some (Inr (in_offset, tot, idx))"
    and "in_offset \<noteq> length in_data"
  shows "decompress_hybrid lz pf in_data = Some (Inl (RuntimeError Trailing_data))"
  using assms by (simp add: decompress_hybrid_def)

lemma decode_blocks_error_stays:
  "decode_blocks lz pf in_data i index (out, True) = Inr (out, True)"
  by (induction index arbitrary: i) (simp_all add: decode_block_def)

lemma decode_block_mismatch:
  assumes "blk_comp_size block \<noteq> blk_orig_size block"
    and "decomp_size_of lz in_data block \<noteq> sint (blk_orig_size block)"
  shows "decode_block lz pf in_data i (out, False) block = Inl Segfault
       \<or> (\<exists>out'. decode_block lz pf in_data i (out, False) block = Inr (out', True))"
    and "pyerr_callable pf i \<Longrightarrow>
           \<exists>out'. decode_block lz pf in_data i (out, False) block = Inr (out', True)"
    and "\<not> pyerr_callable pf i \<Longrightarrow> decode_block lz pf in_data i (out, False) block = Inl Segfault"
  using assms
  by (simp_all add: decode_block_def decomp_size_of_def block_payload_def Let_def)

lemma decode_block_match:
  assumes "blk_comp_size block \<noteq> blk_orig_size block"
    and "decomp_size_of lz in_data block = sint (blk_orig_size block)"
  shows "\<exists>out'. decode_block lz pf in_data i (out, False) block = Inr (out', False)"
  using assms
  by (simp add: decode_block_def decomp_size_of_def block_payload_def Let_def)

lemma decode_block_cases:
  "decode_block lz pf in_data i st block = Inl Segfault
   \<or> (\<exists>out' flag'. decode_block lz pf in_data i st block = Inr (out', flag'))"
  by (cases st) (auto simp add: decode_block_def Let_def)

lemma decode_block_Inl:
  assumes "decode_block lz pf in_data i st block = Inl err"
  shows "err = Segfault \<and> \<not> pyerr_callable pf i"
  using assms by (cases st) (auto simp add: decode_block_def Let_def split: if_splits)

lemma decode_blocks_Inl:
  assumes "decode_blocks lz pf in_data i index st = Inl err"
  shows "err = Segfault \<and> (\<exists>j. \<not> pyerr_callable pf j)"
  using assms
proof (induction index arbitrary: i st)
  case Nil
  then show ?case by simp
next
  case (Cons b bs)
  show ?case
  proof (cases "decode_block lz pf in_data i st b")
    case (Inl e)
    with Cons.prems have "e = err" by simp
    with decode_block_Inl [OF Inl] show ?thesis by blast
  next
    case (Inr st')
    with Cons.prems have "decode_blocks lz pf in_data (Suc i) bs st' = Inl err" by simp
    from Cons.IH [OF this] show ?thesis .
  qed
qed

lemma decode_blocks_mismatch:
  assumes "block \<in> set index" and "blk_comp_size block \<noteq> blk_orig_size block"
    and "decomp_size_of lz in_data block \<noteq> sint (blk_orig_size block)"
  shows "decode_blocks lz pf in_data i index st = Inl Segfault
       \<or> (\<exists>out. decode_blocks lz pf in_data i index st = Inr (out, True))"
  using assms(1)
proof (induction index arbitrary: i st)
  case Nil
  then show ?case by simp
next
  case (Cons b bs)
  obtain out flag where st: "st = (out, flag)" by (cases st)
  from decode_block_cases [of lz pf in_data i st b]
  show ?case
  proof
    assume "decode_block lz pf in_data i st b = Inl Segfault"
    then show ?thesis by simp
  next
    assume "\<exists>out' flag'. decode_block lz pf in_data i st b = Inr (out', flag')"
    then obtain out' flag' where st': "decode_block lz pf in_data i st b = Inr (out', flag')"
      by blast
    show ?thesis
    proof (cases flag')
      case True
      then show ?thesis by (simp add: st' decode_blocks_error_stays)
    next
      case False
      have "b \<noteq> block"
      proof
        assume b: "b = block"
        have "flag = False"
          using st' False st by (auto simp add: decode_block_def Let_def split: if_splits)
        with decode_block_mismatch(1) [OF assms(2,3), of pf i out] st' st b False
        show False by auto
      qed
      with Cons.prems have "block \<in> set bs" by simp
      from Cons.IH [OF this, of "Suc i" "(out', flag')"] show ?thesis by (simp add: st')
    qed
  qed
qed

lemma ideal_platform_simps [simp]:
  "byte_order (ideal_platform e) = e"
  "alloc_ok (ideal_platform e) site n = True"
  "fresh (ideal_platform e) k = 0xAA"
  "strict_format (ideal_platform e) = False"
  "pyerr_callable (ideal_platform e) i = True"
  by (simp_all add: ideal_platform_def pyerr_callable_def)

lemma cpython312_platform_simps [simp]:
  "byte_order (cpython312_platform e) = e"
  "alloc_ok (cpython312_platform e) site n = True"
  "fresh (cpython312_platform e) k = 0xAA"
  "strict_format (cpython312_platform e) = True"
  "pyerr_callable (cpython312_platform e) i = (i = 0)"
  by (simp_all add: cpython312_platform_def pyerr_callable_def)

lemma frame_of_empty_block: "frame_of e empty_block = replicate 8 0"
  by (cases e) (simp_all add: frame_of_def empty_block_def store_u32_def le_bytes_def numeral_eq_Suc)

lemma concat_empty_frames:
  "concat (map (frame_of e) (replicate n empty_block)) = replicate (8 * n) 0"
proof (induction n)
  case 0
  show ?case by simp
next
  case (Suc n)
  have "replicate (8 * Suc n) (0::byte) = replicate 8 0 @ replicate (8 * n) 0"
    by (simp add: replicate_add [symmetric])
  with Suc show ?case by (simp add: frame_of_empty_block)
qed

lemma emitted_empty_block: "emitted empty_block"
  by (simp add: emitted_def empty_block_def)

lemma wrapping_stream_split:
  "wrapping_stream
     = [0, 0, 0, 0, 255, 255, 255, 255, 0, 0, 0, 0, 0, 0, 0]
       @ concat (map (frame_of LittleEndian) (replicate (2 ^ 29 - 1) empty_block))"
proof -
  have "replicate (2 ^ 32 - 1) (0::byte) = replicate (7 + 8 * (2 ^ 29 - 1)) 0" by simp
  also have "\<dots> = replicate 7 0 @ replicate (8 * (2 ^ 29 - 1)) 0" by (rule replicate_add)
  also have "replicate 7 (0::byte) = [0, 0, 0, 0, 0, 0, 0]" by (simp add: numeral_eq_Suc)
  finally have r: "replicate (2 ^ 32 - 1) (0::byte)
      = [0, 0, 0, 0, 0, 0, 0] @ replicate (8 * (2 ^ 29 - 1)) 0" .
  show ?thesis
    unfolding wrapping_stream_def r concat_empty_frames
    by (simp add: store_u32_def le_bytes_def)
qed

lemma wrapping_first_steps:
  assumes "length rest = 2 ^ 32 - 8"
  shows "build_index (ideal_platform LittleEndian)
           ([0, 0, 0, 0, 255, 255, 255, 255, 0, 0, 0, 0, 0, 0, 0] @ rest) 0 0 1024 []
         = build_index (ideal_platform LittleEndian)
           ([0, 0, 0, 0, 255, 255, 255, 255, 0, 0, 0, 0, 0, 0, 0] @ rest) 15 255 1024
           [\<lparr>blk_in_offset = 8, blk_out_offset = 0, blk_comp_size = 0xFFFFFFFF, blk_orig_size = 0\<rparr>,
            \<lparr>blk_in_offset = 15, blk_out_offset = 0, blk_comp_size = 0, blk_orig_size = 255\<rparr>]"
proof -
  let ?P = "ideal_platform LittleEndian"
  let ?in = "[0, 0, 0, 0, 255, 255, 255, 255, 0, 0, 0, 0, 0, 0, 0] @ rest"
  let ?e0 = "\<lparr>blk_in_offset = 8, blk_out_offset = 0, blk_comp_size = 0xFFFFFFFF, blk_orig_size = 0\<rparr>"
  let ?e1 = "\<lparr>blk_in_offset = 15, blk_out_offset = 0, blk_comp_size = 0, blk_orig_size = 255\<rparr>"
  have len: "length ?in = 2 ^ 32 + 7" using assms by simp
  have s0: "index_step ?P ?in 0 0 1024 [] = Inr (7, 0, 1024, [?e0])"
    unfolding index_step_def Let_def len
    by (simp add: load_u32_def MAX_BLOCK_SIZE_def HEADER_SIZE_def)
  have s1: "index_step ?P ?in 7 0 1024 [?e0] = Inr (15, 255, 1024, [?e0, ?e1])"
    unfolding index_step_def Let_def len
    by (simp add: load_u32_def MAX_BLOCK_SIZE_def HEADER_SIZE_def)
  have g0: "0 + HEADER_SIZE \<le> length ?in" unfolding len by (simp add: HEADER_SIZE_def)
  have g1: "7 + HEADER_SIZE \<le> length ?in" unfolding len by (simp add: HEADER_SIZE_def)
  have "build_index ?P ?in 0 0 1024 [] = build_index ?P ?in 7 0 1024 [?e0]"
    using g0 by (subst build_index.simps) (simp only: s0 if_True sum.case prod.case)
  also have "\<dots> = build_index ?P ?in 15 255 1024 [?e0, ?e1]"
    using g1 by (subst build_index.simps) (simp only: s1 if_True sum.case prod.case)
  finally show ?thesis .
qed

lemma tiles_append:
  assumes "tiles pos tot idx pos' tot'"
    and "blk_in_offset b = pos' + HEADER_SIZE" and "blk_out_offset b = tot'"
  shows "tiles pos tot (idx @ [b]) (blk_in_offset b + unat (blk_comp_size b))
           (blk_out_offset b + unat (blk_orig_size b))"
  using assms
proof (induction idx arbitrary: pos tot)
  case Nil
  then show ?case by simp
next
  case (Cons a idx)
  from Cons.prems(1) have h: "blk_in_offset a = pos + HEADER_SIZE" "blk_out_offset a = tot"
    and t: "tiles (blk_in_offset a + unat (blk_comp_size a))
              (blk_out_offset a + unat (blk_orig_size a)) idx pos' tot'"
    by auto
  from Cons.IH [OF t Cons.prems(2,3)] h show ?case by simp
qed

lemma tiles_adjacent:
  assumes "tiles pos tot idx pos' tot'" and "Suc i < length idx"
  shows "blk_in_offset (idx ! Suc i)
           = blk_in_offset (idx ! i) + unat (blk_comp_size (idx ! i)) + HEADER_SIZE
       \<and> blk_out_offset (idx ! Suc i) = blk_out_offset (idx ! i) + unat (blk_orig_size (idx ! i))"
  using assms
proof (induction idx arbitrary: pos tot i)
  case Nil
  then show ?case by simp
next
  case (Cons b bs)
  from Cons.prems(1) have t: "tiles (blk_in_offset b + unat (blk_comp_size b))
              (blk_out_offset b + unat (blk_orig_size b)) bs pos' tot'"
    by auto
  show ?case
  proof (cases i)
    case 0
    with Cons.prems(2) obtain c cs where bs: "bs = c # cs" by (cases bs) auto
    from t have "blk_in_offset c = blk_in_offset b + unat (blk_comp_size b) + HEADER_SIZE"
      and "blk_out_offset c = blk_out_offset b + unat (blk_orig_size b)"
      by (simp_all add: bs)
    then show ?thesis by (simp add: 0 bs)
  next
    case (Suc k)
    with Cons.prems(2) have "Suc k < length bs" by simp
    from Cons.IH [OF t this] show ?thesis by (simp add: Suc)
  qed
qed

lemma tiles_first:
  assumes "tiles pos tot idx pos' tot'" and "0 < length idx"
  shows "blk_in_offset (idx ! 0) = pos + HEADER_SIZE \<and> blk_out_offset (idx ! 0) = tot"
  using assms by (cases idx) simp_all

lemma index_step_tiles:
  assumes "length in_data < 2 ^ 32" and "in_offset + HEADER_SIZE \<le> length in_data"
    and "index_step pf in_data in_offset tot cap idx = Inr (in_offset', tot', cap', idx')"
    and "tiles 0 0 idx in_offset tot" and "tot \<le> 2 ^ 29 * length idx"
    and "8 * length idx \<le> in_offset"
  shows "tiles 0 0 idx' in_offset' tot' \<and> tot' \<le> 2 ^ 29 * length idx'
       \<and> 8 * length idx' \<le> in_offset' \<and> in_offset' \<le> length in_data"
proof -
  define bs where "bs = load_u32 (byte_order pf) (take 4 (drop in_offset in_data))"
  define cs where "cs = load_u32 (byte_order pf) (take 4 (drop (in_offset + 4) in_data))"
  define b where "b = \<lparr>blk_in_offset = in_offset + HEADER_SIZE, blk_out_offset = tot,
                         blk_comp_size = cs, blk_orig_size = bs\<rparr>"
  from assms(3) have ok: "unat bs \<le> MAX_BLOCK_SIZE" "unat cs \<le> length in_data - (in_offset + HEADER_SIZE)"
    and r: "in_offset' = in_offset + unat (of_nat HEADER_SIZE + cs)"
      "tot' = (tot + unat bs) mod 2 ^ 64" "idx' = idx @ [b]"
    by (auto simp add: index_step_def Let_def bs_def cs_def b_def split: if_splits)
  have "unat (8 :: uint32_t) + unat cs < 2 ^ LENGTH(32)"
    using ok(2) assms(1,2) by (simp add: HEADER_SIZE_def)
  then have adv: "unat (8 + cs) = 8 + unat cs"
    by (simp add: unat_add_lem [THEN iffD1])
  have "length idx < 2 ^ 29" using assms(1,2,6) by (simp add: HEADER_SIZE_def)
  then have "2 ^ 29 * length idx \<le> (2::nat) ^ 29 * 2 ^ 29" by simp
  then have "tot + unat bs < 2 ^ 64"
    using assms(5) ok(1) by (simp add: MAX_BLOCK_SIZE_def)
  then have t: "tot' = tot + unat bs" by (simp add: r(2))
  have io: "in_offset' = in_offset + HEADER_SIZE + unat cs"
    by (simp add: r(1) HEADER_SIZE_def adv)
  have "tiles 0 0 (idx @ [b]) (blk_in_offset b + unat (blk_comp_size b))
           (blk_out_offset b + unat (blk_orig_size b))"
    by (rule tiles_append [OF assms(4)]) (simp_all add: b_def)
  then have "tiles 0 0 idx' in_offset' tot'" by (simp add: r(3) io t b_def)
  moreover have "tot' \<le> 2 ^ 29 * length idx'"
    using assms(5) ok(1) by (simp add: t r(3) MAX_BLOCK_SIZE_def)
  moreover have "8 * length idx' \<le> in_offset'"
    using assms(6) by (simp add: io r(3) HEADER_SIZE_def)
  moreover have "in_offset' \<le> length in_data"
    using ok(2) assms(2) by (simp add: io)
  ultimately show ?thesis by blast
qed

lemma build_index_tiles_aux:
  assumes "build_index pf in_data in_offset tot cap idx = Some y"
  shows "\<forall>pos tot' index. y = Inr (pos, tot', index) \<longrightarrow> length in_data < 2 ^ 32 \<longrightarrow>
           tiles 0 0 idx in_offset tot \<longrightarrow> tot \<le> 2 ^ 29 * length idx \<longrightarrow>
           8 * length idx \<le> in_offset \<longrightarrow> in_offset \<le> length in_data \<longrightarrow>
           tiles 0 0 index pos tot' \<and> pos \<le> length in_data"
proof (rule build_index.raw_induct [where P = "\<lambda>pf in_data in_offset tot cap idx y.
         \<forall>pos tot' index. y = Inr (pos, tot', index) \<longrightarrow> length in_data < 2 ^ 32 \<longrightarrow>
           tiles 0 0 idx in_offset tot \<longrightarrow> tot \<le> 2 ^ 29 * length idx \<longrightarrow>
           8 * length idx \<le> in_offset \<longrightarrow> in_offset \<le> length in_data \<longrightarrow>
           tiles 0 0 index pos tot' \<and> pos \<le> length in_data", OF _ assms], goal_cases)
  case (1 build_index' pf in_data in_offset tot cap idx y)
  show ?case
  proof (cases "in_offset + HEADER_SIZE \<le> length in_data")
    case True
    show ?thesis
    proof (cases "index_step pf in_data in_offset tot cap idx")
      case (Inl err)
      with 1(2) True show ?thesis by auto
    next
      case (Inr s')
      obtain in_offset' tot' cap' idx' where s': "s' = (in_offset', tot', cap', idx')"
        by (cases s') auto
      from 1(2) True Inr have rec: "build_index' pf in_data in_offset' tot' cap' idx' = Some y"
        by (simp add: s')
      show ?thesis
      proof (intro allI impI)
        fix pos tot'' index
        assume y: "y = Inr (pos, tot'', index)" and len: "length in_data < 2 ^ 32"
          and inv: "tiles 0 0 idx in_offset tot" "tot \<le> 2 ^ 29 * length idx"
            "8 * length idx \<le> in_offset" "in_offset \<le> length in_data"
        from index_step_tiles [OF len True Inr [unfolded s'] inv(1,2,3)]
        have "tiles 0 0 idx' in_offset' tot'" "tot' \<le> 2 ^ 29 * length idx'"
          "8 * length idx' \<le> in_offset'" "in_offset' \<le> length in_data"
          by blast+
        with 1(1) [OF rec] y len show "tiles 0 0 index pos tot'' \<and> pos \<le> length in_data"
          by blast
      qed
    qed
  next
    case False
    with 1(2) have "y = Inr (in_offset, tot, idx)" by simp
    then show ?thesis by auto
  qed
qed

lemma build_index_tiles:
  assumes "length in_data < 2 ^ 32"
    and "build_index pf in_data 0 0 1024 [] = Some (Inr (pos, tot, index))"
  shows "tiles 0 0 index pos tot"
  using build_index_tiles_aux [OF assms(2)] assms(1) by simp

text \<open>
  The two checks of \<open>compress_hybrid\<close> refuse exactly the block size zero and the block
  sizes over \<open>MAX_BLOCK_SIZE\<close>. The error of the first is \<open>ValueError\<close> where
  \<open>PyErr_Format\<close> takes the conversion \<open>%Ld\<close>, and \<open>SystemError\<close> where it does not.
\<close>

lemma compress_hybrid_rejects_iff:
  "((\<exists>v. compress_hybrid lz pf in_data block_size = Inl (ValueError v))
      \<or> compress_hybrid lz pf in_data block_size = Inl SystemError)
     \<longleftrightarrow> (block_size = 0 \<or> block_size > MAX_BLOCK_SIZE)"
  by (auto simp add: compress_hybrid_def Let_def)

lemma compress_hybrid_zero:
  "compress_hybrid lz pf in_data 0 = Inl (ValueError Block_size_cannot_be_zero)"
  by (simp add: compress_hybrid_def MAX_BLOCK_SIZE_def)

lemma compress_hybrid_oversized:
  assumes "block_size > MAX_BLOCK_SIZE"
  shows "compress_hybrid lz pf in_data block_size
         = Inl (if strict_format pf then SystemError
                else ValueError Block_size_exceeds_MAX_BLOCK_SIZE)"
  using assms by (simp add: compress_hybrid_def)

lemma compress_hybrid_ValueError_lenient:
  assumes "\<not> strict_format pf"
  shows "(\<exists>v. compress_hybrid lz pf in_data block_size = Inl (ValueError v))
           \<longleftrightarrow> (block_size = 0 \<or> block_size > MAX_BLOCK_SIZE)"
  using assms by (auto simp add: compress_hybrid_def Let_def)

lemma compress_hybrid_ValueError_strict:
  assumes "strict_format pf"
  shows "(\<exists>v. compress_hybrid lz pf in_data block_size = Inl (ValueError v))
           \<longleftrightarrow> block_size = 0"
  using assms by (auto simp add: compress_hybrid_def Let_def MAX_BLOCK_SIZE_def)

text \<open>
  A block in compressed form that the decompressor does not expand to \<open>original_size\<close>
  bytes: \<open>decompress_hybrid\<close> returns no data. It raises the size-mismatch error when the
  thread that runs the iteration can call \<open>PyErr_Occurred\<close>.
\<close>

lemma codec_mismatch_no_data:
  assumes "alloc_ok pf Index_array 1024"
    and "build_index pf in_data 0 0 1024 [] = Some (Inr (length in_data, tot, index))"
    and "block \<in> set index"
    and "blk_comp_size block \<noteq> blk_orig_size block"
    and "decomp_size_of lz in_data block \<noteq> sint (blk_orig_size block)"
  shows "\<exists>err. decompress_hybrid lz pf in_data = Some (Inl err)"
    and "alloc_ok pf Decoded_output tot \<Longrightarrow>
           decompress_hybrid lz pf in_data = Some (Inl (RuntimeError LZ4_size_mismatch))
         \<or> decompress_hybrid lz pf in_data = Some (Inl Segfault)"
    and "alloc_ok pf Decoded_output tot \<Longrightarrow> \<forall>j. pyerr_callable pf j \<Longrightarrow>
           decompress_hybrid lz pf in_data = Some (Inl (RuntimeError LZ4_size_mismatch))"
proof -
  let ?d = "decode_blocks lz pf in_data 0 index (uninit pf tot, False)"
  note m = decode_blocks_mismatch [OF assms(3,4,5), of pf 0 "(uninit pf tot, False)"]
  from m assms(1,2) show "\<exists>err. decompress_hybrid lz pf in_data = Some (Inl err)"
    by (auto simp add: decompress_hybrid_def)
  from m assms(1,2)
  show "alloc_ok pf Decoded_output tot \<Longrightarrow>
           decompress_hybrid lz pf in_data = Some (Inl (RuntimeError LZ4_size_mismatch))
         \<or> decompress_hybrid lz pf in_data = Some (Inl Segfault)"
    by (auto simp add: decompress_hybrid_def)
  show "decompress_hybrid lz pf in_data = Some (Inl (RuntimeError LZ4_size_mismatch))"
    if a: "alloc_ok pf Decoded_output tot" and c: "\<forall>j. pyerr_callable pf j"
  proof -
    have "?d \<noteq> Inl Segfault"
      using decode_blocks_Inl [of lz pf in_data 0 index "(uninit pf tot, False)" Segfault] c
      by blast
    with m obtain out where "?d = Inr (out, True)" by blast
    with assms(1,2) a show ?thesis by (simp add: decompress_hybrid_def)
  qed
qed

text \<open>Ten bytes \<open>0x41\<close> with block size 4: two compressed blocks and a raw one.\<close>

lemma example_blocks:
  "map the (compress_results run_lz4 (ideal_platform LittleEndian)
              [0x41, 0x41, 0x41, 0x41, 0x41, 0x41, 0x41, 0x41, 0x41, 0x41] 4)
   = [\<lparr>offset_in = 0, orig_size = 4, comp_size = 2, comp_buf = [0x41, 4]\<rparr>,
      \<lparr>offset_in = 4, orig_size = 4, comp_size = 2, comp_buf = [0x41, 4]\<rparr>,
      \<lparr>offset_in = 8, orig_size = 2, comp_size = 2, comp_buf = [0x41, 0x41]\<rparr>]"
proof -
  let ?B = "[0x41, 0x41, 0x41, 0x41, 0x41, 0x41, 0x41, 0x41, 0x41, 0x41] :: byte list"
  let ?P = "ideal_platform LittleEndian"
  have n: "[0..<num_blocks_of (length ?B) 4] = [0, Suc 0, 2]"
    by (simp add: num_blocks_of_def upt_rec)
  have b0: "compress_block run_lz4 ?P ?B 4 0
              = Some \<lparr>offset_in = 0, orig_size = 4, comp_size = 2, comp_buf = [0x41, 4]\<rparr>"
    by (simp add: compress_block_def Let_def run_lz4_def run_compress_def)
  have b1: "compress_block run_lz4 ?P ?B 4 (Suc 0)
              = Some \<lparr>offset_in = 4, orig_size = 4, comp_size = 2, comp_buf = [0x41, 4]\<rparr>"
    by (simp add: compress_block_def Let_def run_lz4_def run_compress_def)
  have b2: "compress_block run_lz4 ?P ?B 4 2
              = Some \<lparr>offset_in = 8, orig_size = 2, comp_size = 2, comp_buf = [0x41, 0x41]\<rparr>"
    by (simp add: compress_block_def Let_def run_lz4_def run_compress_def)
  show ?thesis
    unfolding compress_results_def n by (simp only: list.map b0 b1 b2 option.sel)
qed

lemma example_encoding:
  "compress_hybrid run_lz4 (ideal_platform LittleEndian)
     [0x41, 0x41, 0x41, 0x41, 0x41, 0x41, 0x41, 0x41, 0x41, 0x41] 4
   = Inr [4, 0, 0, 0, 2, 0, 0, 0, 0x41, 4,
          4, 0, 0, 0, 2, 0, 0, 0, 0x41, 4,
          2, 0, 0, 0, 2, 0, 0, 0, 0x41, 0x41]"
proof -
  have a: "(4::nat) \<le> MAX_BLOCK_SIZE" by (simp add: MAX_BLOCK_SIZE_def)
  have b: "0 < (4::nat)" by simp
  show ?thesis
    unfolding compress_hybrid_frames [OF ideal_no_alloc_failure [of LittleEndian] b a] example_blocks
    by (simp add: frame_of_def store_u32_def le_bytes_def)
qed

section \<open>The properties\<close>

text \<open>
  C7. For an accepted block size the encoder splits an input of length \<open>N\<close> into
  \<open>\<lceil>N / block_size\<rceil>\<close> blocks; block \<open>i\<close> starts at \<open>i * block_size\<close> and ends at
  \<open>min ((i + 1) * block_size) N\<close>; every block but the last has \<open>block_size\<close> bytes, the
  last has between 1 and \<open>block_size\<close>; an empty input has no block.
\<close>

theorem partition_blocks:
  assumes "0 < block_size" and "no_alloc_failure pf"
  shows "length (compress_results lz pf in_data block_size) = num_blocks_of (length in_data) block_size
       \<and> int (num_blocks_of (length in_data) block_size) = \<lceil>real (length in_data) / real block_size\<rceil>
       \<and> (length in_data = 0 \<longrightarrow> num_blocks_of (length in_data) block_size = 0)
       \<and> (\<forall>i < num_blocks_of (length in_data) block_size.
            \<exists>r. compress_results lz pf in_data block_size ! i = Some r
               \<and> offset_in r = i * block_size
               \<and> offset_in r + orig_size r = min ((i + 1) * block_size) (length in_data)
               \<and> 0 < orig_size r \<and> orig_size r \<le> block_size
               \<and> (i + 1 < num_blocks_of (length in_data) block_size \<longrightarrow> orig_size r = block_size))"
proof (intro conjI allI impI)
  show "length (compress_results lz pf in_data block_size) = num_blocks_of (length in_data) block_size"
    by (simp add: compress_results_def)
  show "int (num_blocks_of (length in_data) block_size) = \<lceil>real (length in_data) / real block_size\<rceil>"
    by (rule num_blocks_ceiling [OF assms(1)])
  show "num_blocks_of (length in_data) block_size = 0" if "length in_data = 0"
    using that assms(1) by (simp add: num_blocks_of_def)
next
  fix i assume i: "i < num_blocks_of (length in_data) block_size"
  have lt: "i * block_size < length in_data"
    by (rule block_start_in_range [OF assms(1) i])
  have full: "i * block_size + block_size \<le> length in_data"
    if "i + 1 < num_blocks_of (length in_data) block_size"
    using full_block_in_range [OF assms(1), of i "length in_data"] that by simp
  show "\<exists>r. compress_results lz pf in_data block_size ! i = Some r
               \<and> offset_in r = i * block_size
               \<and> offset_in r + orig_size r = min ((i + 1) * block_size) (length in_data)
               \<and> 0 < orig_size r \<and> orig_size r \<le> block_size
               \<and> (i + 1 < num_blocks_of (length in_data) block_size \<longrightarrow> orig_size r = block_size)"
    using assms lt full
    by (auto simp add: compress_results_nth [OF i] compress_block_def Let_def no_alloc_failure_def min_def)
qed

theorem partition_blocks_witness:
  "0 < (4::nat) \<and> no_alloc_failure (ideal_platform LittleEndian)
   \<and> length (compress_results run_lz4 (ideal_platform LittleEndian)
               [0x41, 0x41, 0x41, 0x41, 0x41, 0x41, 0x41, 0x41, 0x41, 0x41] 4) = 3
   \<and> (\<exists>r. compress_results run_lz4 (ideal_platform LittleEndian)
               [0x41, 0x41, 0x41, 0x41, 0x41, 0x41, 0x41, 0x41, 0x41, 0x41] 4 ! 2 = Some r
          \<and> offset_in r = 8 \<and> orig_size r = 2)"
proof -
  let ?B = "[0x41, 0x41, 0x41, 0x41, 0x41, 0x41, 0x41, 0x41, 0x41, 0x41] :: byte list"
  have h1: "0 < (4::nat)" by simp
  have h2: "no_alloc_failure (ideal_platform LittleEndian)" by (rule ideal_no_alloc_failure)
  have n: "num_blocks_of (length ?B) 4 = 3" by (simp add: num_blocks_of_def)
  note t = partition_blocks [OF h1 h2, of run_lz4 ?B, unfolded n]
  from t have len: "length (compress_results run_lz4 (ideal_platform LittleEndian) ?B 4) = 3"
    by blast
  from t have a: "\<forall>i<3. \<exists>r. compress_results run_lz4 (ideal_platform LittleEndian) ?B 4 ! i = Some r
               \<and> offset_in r = i * 4
               \<and> offset_in r + orig_size r = min ((i + 1) * 4) (length ?B)
               \<and> 0 < orig_size r \<and> orig_size r \<le> 4
               \<and> (i + 1 < 3 \<longrightarrow> orig_size r = 4)"
    by blast
  have "(2::nat) < 3" by simp
  with a obtain r where r: "compress_results run_lz4 (ideal_platform LittleEndian) ?B 4 ! 2 = Some r"
    and off: "offset_in r = 2 * 4"
    and sz: "offset_in r + orig_size r = min ((2 + 1) * 4) (length ?B)"
    by blast
  from off sz have "offset_in r = 8 \<and> orig_size r = 2" by simp
  with r have "\<exists>r. compress_results run_lz4 (ideal_platform LittleEndian) ?B 4 ! 2 = Some r
          \<and> offset_in r = 8 \<and> orig_size r = 2"
    by blast
  with h1 h2 len show ?thesis by blast
qed

text \<open>
  C2. For an accepted block size, when no allocation fails, the stream is the concatenation
  of the frames of the block results, and the result of block \<open>i\<close> is made from the bytes
  of the input from \<open>i * block_size\<close> on, at most \<open>block_size\<close> of them: its
  \<open>stored_size\<close> is at most its \<open>original_size\<close>; the output of the compressor for these
  bytes is kept exactly when it is not empty and strictly shorter than the block; otherwise
  the payload is the block itself and \<open>stored_size = original_size\<close>. The two sizes are
  equal exactly when the payload is the verbatim copy.
\<close>

theorem fallback_policy:
  assumes "0 < block_size" and "block_size \<le> MAX_BLOCK_SIZE" and "no_alloc_failure pf"
    and "i < num_blocks_of (length in_data) block_size"
  shows "let src = take block_size (drop (i * block_size) in_data);
             dst = LZ4_compress_default lz src (LZ4_compressBound lz (int (length src)));
             kept = (0 < length dst \<and> length dst < length src)
         in \<exists>r. compress_hybrid lz pf in_data block_size
                  = Inr (concat (map (frame_of (byte_order pf))
                           (map the (compress_results lz pf in_data block_size))))
              \<and> map the (compress_results lz pf in_data block_size) ! i = r
              \<and> compress_results lz pf in_data block_size ! i = Some r
              \<and> offset_in r = i * block_size
              \<and> orig_size r = length src
              \<and> 0 < orig_size r
              \<and> comp_size r \<le> int (orig_size r)
              \<and> int (length (comp_buf r)) = comp_size r
              \<and> (kept \<longrightarrow> comp_buf r = dst \<and> comp_size r = int (length dst)
                          \<and> comp_size r < int (orig_size r))
              \<and> (\<not> kept \<longrightarrow> comp_buf r = src \<and> comp_size r = int (orig_size r))
              \<and> (comp_size r = int (orig_size r) \<longleftrightarrow> comp_buf r = src)
              \<and> (comp_size r = int (orig_size r) \<longleftrightarrow> \<not> kept)"
proof -
  define src where "src = take block_size (drop (i * block_size) in_data)"
  define dst where "dst = LZ4_compress_default lz src (LZ4_compressBound lz (int (length src)))"
  define r where "r = (if 0 < length dst \<and> length dst < length src
     then \<lparr>offset_in = i * block_size, orig_size = length src, comp_size = int (length dst),
           comp_buf = dst\<rparr>
     else \<lparr>offset_in = i * block_size, orig_size = length src, comp_size = int (length src),
           comp_buf = src\<rparr>)"
  have ne: "0 < length src"
    unfolding src_def by (rule block_nonempty(1) [OF assms(1,4)])
  have "compress_block lz pf in_data block_size i = Some r"
    unfolding r_def dst_def src_def compress_block_eq [OF assms(3,1,4)] Let_def by (rule refl)
  then have res: "compress_results lz pf in_data block_size ! i = Some r"
    by (simp only: compress_results_nth [OF assms(4)])
  have len: "i < length (compress_results lz pf in_data block_size)"
    using assms(4) by (simp add: compress_results_def)
  have nth: "map the (compress_results lz pf in_data block_size) ! i = r"
    using len res by simp
  have enc: "compress_hybrid lz pf in_data block_size
                  = Inr (concat (map (frame_of (byte_order pf))
                           (map the (compress_results lz pf in_data block_size))))"
    by (rule compress_hybrid_frames [OF assms(3,1,2)])
  have props: "offset_in r = i * block_size
              \<and> orig_size r = length src
              \<and> 0 < orig_size r
              \<and> comp_size r \<le> int (orig_size r)
              \<and> int (length (comp_buf r)) = comp_size r
              \<and> (0 < length dst \<and> length dst < length src
                   \<longrightarrow> comp_buf r = dst \<and> comp_size r = int (length dst)
                          \<and> comp_size r < int (orig_size r))
              \<and> (\<not> (0 < length dst \<and> length dst < length src)
                   \<longrightarrow> comp_buf r = src \<and> comp_size r = int (orig_size r))
              \<and> (comp_size r = int (orig_size r) \<longleftrightarrow> comp_buf r = src)
              \<and> (comp_size r = int (orig_size r)
                   \<longleftrightarrow> \<not> (0 < length dst \<and> length dst < length src))"
    using ne by (auto simp add: r_def)
  from enc nth res props show ?thesis
    unfolding Let_def src_def [symmetric] dst_def [symmetric] by blast
qed

theorem fallback_policy_witness:
  "0 < (4::nat) \<and> 4 \<le> MAX_BLOCK_SIZE \<and> no_alloc_failure (ideal_platform LittleEndian)
   \<and> 0 < num_blocks_of (length [0x41, 0x41, 0x41, 0x41, 0x41, 0x41, 0x41, 0x41, 0x41, 0x41 :: byte]) 4
   \<and> 2 < num_blocks_of (length [0x41, 0x41, 0x41, 0x41, 0x41, 0x41, 0x41, 0x41, 0x41, 0x41 :: byte]) 4
   \<and> compress_results run_lz4 (ideal_platform LittleEndian)
         [0x41, 0x41, 0x41, 0x41, 0x41, 0x41, 0x41, 0x41, 0x41, 0x41] 4 ! 0
       = Some \<lparr>offset_in = 0, orig_size = 4, comp_size = 2, comp_buf = [0x41, 4]\<rparr>
   \<and> compress_results run_lz4 (ideal_platform LittleEndian)
         [0x41, 0x41, 0x41, 0x41, 0x41, 0x41, 0x41, 0x41, 0x41, 0x41] 4 ! 2
       = Some \<lparr>offset_in = 8, orig_size = 2, comp_size = 2, comp_buf = [0x41, 0x41]\<rparr>"
proof -
  let ?B = "[0x41, 0x41, 0x41, 0x41, 0x41, 0x41, 0x41, 0x41, 0x41, 0x41] :: byte list"
  let ?P = "ideal_platform LittleEndian"
  have h1: "0 < (4::nat)" by simp
  have h2: "4 \<le> MAX_BLOCK_SIZE" by (simp add: MAX_BLOCK_SIZE_def)
  have h3: "no_alloc_failure ?P" by (rule ideal_no_alloc_failure)
  have h4: "0 < num_blocks_of (length ?B) 4" by (simp add: num_blocks_of_def)
  have h5: "2 < num_blocks_of (length ?B) 4" by (simp add: num_blocks_of_def)
  have s0: "take 4 (drop (0 * 4) ?B) = [0x41, 0x41, 0x41, 0x41]" by simp
  have d0: "LZ4_compress_default run_lz4 [0x41, 0x41, 0x41, 0x41]
              (LZ4_compressBound run_lz4 (int (length [0x41, 0x41, 0x41, 0x41 :: byte]))) = [0x41, 4]"
    by (simp add: run_lz4_def run_compress_def)
  have s2: "take 4 (drop (2 * 4) ?B) = [0x41, 0x41]" by simp
  have d2: "LZ4_compress_default run_lz4 [0x41, 0x41]
              (LZ4_compressBound run_lz4 (int (length [0x41, 0x41 :: byte]))) = [0x41, 2]"
    by (simp add: run_lz4_def run_compress_def)
  from fallback_policy [OF h1 h2 h3 h4, of run_lz4, unfolded Let_def s0 d0]
  obtain r0 where r0: "compress_results run_lz4 ?P ?B 4 ! 0 = Some r0"
    and f0: "offset_in r0 = 0 * 4" "orig_size r0 = length [0x41, 0x41, 0x41, 0x41 :: byte]"
    and k0: "0 < length [0x41, 4 :: byte] \<and> length [0x41, 4 :: byte] < length [0x41, 0x41, 0x41, 0x41 :: byte]
             \<longrightarrow> comp_buf r0 = [0x41, 4] \<and> comp_size r0 = int (length [0x41, 4 :: byte])"
    by blast
  from f0 k0 have "r0 = \<lparr>offset_in = 0, orig_size = 4, comp_size = 2, comp_buf = [0x41, 4]\<rparr>"
    by (cases r0) simp
  with r0 have c0: "compress_results run_lz4 ?P ?B 4 ! 0
       = Some \<lparr>offset_in = 0, orig_size = 4, comp_size = 2, comp_buf = [0x41, 4]\<rparr>"
    by simp
  from fallback_policy [OF h1 h2 h3 h5, of run_lz4, unfolded Let_def s2 d2]
  obtain r2 where r2: "compress_results run_lz4 ?P ?B 4 ! 2 = Some r2"
    and f2: "offset_in r2 = 2 * 4" "orig_size r2 = length [0x41, 0x41 :: byte]"
    and k2: "\<not> (0 < length [0x41, 2 :: byte] \<and> length [0x41, 2 :: byte] < length [0x41, 0x41 :: byte])
             \<longrightarrow> comp_buf r2 = [0x41, 0x41] \<and> comp_size r2 = int (orig_size r2)"
    by blast
  from f2 k2 have "r2 = \<lparr>offset_in = 8, orig_size = 2, comp_size = 2, comp_buf = [0x41, 0x41]\<rparr>"
    by (cases r2) simp
  with r2 have c2: "compress_results run_lz4 ?P ?B 4 ! 2
       = Some \<lparr>offset_in = 8, orig_size = 2, comp_size = 2, comp_buf = [0x41, 0x41]\<rparr>"
    by simp
  from h1 h2 h3 h4 h5 c0 c2 show ?thesis by blast
qed

text \<open>
  C1. For every byte sequence \<open>B\<close> (a Python bytes object, so shorter than \<open>2 ^ 63\<close>) and every
  block size between 1 and \<open>MAX_BLOCK_SIZE\<close>, when no allocation fails and the LZ4 library
  keeps its round-trip contract, \<open>compress_hybrid\<close> returns a stream and
  \<open>decompress_hybrid\<close>, on a machine of the same byte order, returns \<open>B\<close> for it.
\<close>

theorem round_trip:
  assumes "0 < block_size" and "block_size \<le> MAX_BLOCK_SIZE" and "length B < 2 ^ 63"
    and "lz4_round_trip lz"
    and "no_alloc_failure pf" and "no_alloc_failure pf'" and "byte_order pf' = byte_order pf"
  shows "\<exists>E. compress_hybrid lz pf B block_size = Inr E \<and> decompress_hybrid lz pf' E = Some (Inr B)"
proof -
  define rs where "rs = map the (compress_results lz pf B block_size)"
  define E where "E = concat (map (frame_of (byte_order pf)) rs)"
  define ds where "ds = map (\<lambda>i. take block_size (drop (i * block_size) B))
                          [0..<num_blocks_of (length B) block_size]"
  have em: "list_all emitted rs"
    unfolding rs_def by (rule results_emitted [OF assms(5,1,2)])
  have tot: "sum_list (map orig_size rs) = length B"
    unfolding rs_def by (rule results_orig_total [OF assms(5,1,2)])
  have cat: "concat ds = B"
    unfolding ds_def by (rule concat_all_blocks [OF assms(1)])
  have all2: "list_all2 (decodes_to lz) rs ds"
    unfolding rs_def ds_def by (rule results_decodes_to [OF assms(5,1,2,4)])
  have enc: "compress_hybrid lz pf B block_size = Inr E"
    unfolding E_def rs_def by (rule compress_hybrid_frames [OF assms(5,1,2)])
  have "0 + sum_list (map orig_size rs) < (2::nat) ^ 64"
    unfolding tot using assms(3) by simp
  from build_index_frames [OF em assms(6) this, of "[]" 1024 "[]"]
  have idx: "build_index pf' E 0 0 1024 [] = Some (Inr (length E, length B, index_of_frames 0 0 rs))"
    unfolding tot assms(7) E_def by simp
  have "decode_blocks lz pf' ([] @ concat (map (frame_of (byte_order pf)) rs)) 0
          (index_of_frames (length ([]::byte list)) 0 rs)
          ([] @ uninit pf' (length B) @ [], False) = Inr ([] @ concat ds @ [], False)"
    by (rule decode_blocks_frames [OF em all2]) (simp_all add: cat uninit_def)
  then have dec: "decode_blocks lz pf' E 0 (index_of_frames 0 0 rs) (uninit pf' (length B), False)
                    = Inr (B, False)"
    by (simp add: cat E_def)
  have "decompress_hybrid lz pf' E = Some (Inr B)"
    using assms(6) by (simp add: decompress_hybrid_def idx dec no_alloc_failure_def)
  with enc show ?thesis by blast
qed

theorem round_trip_witness:
  "0 < (4::nat) \<and> 4 \<le> MAX_BLOCK_SIZE
   \<and> length [0x41, 0x41, 0x41, 0x41, 0x41, 0x41, 0x41, 0x41, 0x41, 0x41 :: byte] < 2 ^ 63
   \<and> lz4_round_trip run_lz4
   \<and> no_alloc_failure (ideal_platform LittleEndian)
   \<and> compress_hybrid run_lz4 (ideal_platform LittleEndian)
         [0x41, 0x41, 0x41, 0x41, 0x41, 0x41, 0x41, 0x41, 0x41, 0x41] 4
       = Inr [4, 0, 0, 0, 2, 0, 0, 0, 0x41, 4,
              4, 0, 0, 0, 2, 0, 0, 0, 0x41, 4,
              2, 0, 0, 0, 2, 0, 0, 0, 0x41, 0x41]
   \<and> decompress_hybrid run_lz4 (ideal_platform LittleEndian)
         [4, 0, 0, 0, 2, 0, 0, 0, 0x41, 4,
          4, 0, 0, 0, 2, 0, 0, 0, 0x41, 4,
          2, 0, 0, 0, 2, 0, 0, 0, 0x41, 0x41]
       = Some (Inr [0x41, 0x41, 0x41, 0x41, 0x41, 0x41, 0x41, 0x41, 0x41, 0x41])"
proof -
  let ?B = "[0x41, 0x41, 0x41, 0x41, 0x41, 0x41, 0x41, 0x41, 0x41, 0x41] :: byte list"
  let ?E = "[4, 0, 0, 0, 2, 0, 0, 0, 0x41, 4,
             4, 0, 0, 0, 2, 0, 0, 0, 0x41, 4,
             2, 0, 0, 0, 2, 0, 0, 0, 0x41, 0x41] :: byte list"
  let ?P = "ideal_platform LittleEndian"
  have h1: "0 < (4::nat)" by simp
  have h2: "4 \<le> MAX_BLOCK_SIZE" by (simp add: MAX_BLOCK_SIZE_def)
  have h3: "length ?B < 2 ^ 63" by simp
  have h4: "lz4_round_trip run_lz4" by (rule run_lz4_round_trip)
  have h5: "no_alloc_failure ?P" by (rule ideal_no_alloc_failure)
  have h7: "byte_order ?P = byte_order ?P" by (rule refl)
  have enc: "compress_hybrid run_lz4 ?P ?B 4 = Inr ?E" by (rule example_encoding)
  from round_trip [OF h1 h2 h3 h4 h5 h5 h7]
  obtain E where e: "compress_hybrid run_lz4 ?P ?B 4 = Inr E"
    and d: "decompress_hybrid run_lz4 ?P E = Some (Inr ?B)" by blast
  from e enc have "E = ?E" by simp
  with d have dec: "decompress_hybrid run_lz4 ?P ?E = Some (Inr ?B)" by simp
  from h1 h2 h3 h4 h5 enc dec show ?thesis by blast
qed

text \<open>
  C8. \<open>compress_hybrid\<close> returns no data exactly when the block size is zero or larger
  than \<open>MAX_BLOCK_SIZE\<close>, as far as the two checks go, and every block size from 1 to
  \<open>MAX_BLOCK_SIZE\<close> passes them (\<open>compress_hybrid_rejects_iff\<close>). The error is
  \<open>ValueError\<close> for the block size zero (\<open>compress_hybrid_zero\<close>). For a block size over
  \<open>MAX_BLOCK_SIZE\<close> the code asks for \<open>ValueError\<close> through \<open>PyErr_Format\<close> with the
  conversion \<open>%Ld\<close>, which \<open>PyErr_Format\<close> does not have: an interpreter that takes it
  raises \<open>ValueError\<close> (\<open>compress_hybrid_ValueError_lenient\<close>), and CPython 3.12 and later,
  which refuse it, raise \<open>SystemError\<close> in its place. So for \<open>MAX_BLOCK_SIZE + 1\<close>:
\<close>

theorem oversized_block_size_SystemError:
  "compress_hybrid run_lz4 (cpython312_platform LittleEndian) [1, 2, 3] (MAX_BLOCK_SIZE + 1)
     = Inl SystemError
   \<and> compress_hybrid run_lz4 (ideal_platform LittleEndian) [1, 2, 3] (MAX_BLOCK_SIZE + 1)
     = Inl (ValueError Block_size_exceeds_MAX_BLOCK_SIZE)
   \<and> compress_hybrid run_lz4 (cpython312_platform LittleEndian) [1, 2, 3] 0
     = Inl (ValueError Block_size_cannot_be_zero)
   \<and> compress_hybrid run_lz4 (cpython312_platform LittleEndian) [1, 2, 3] MAX_BLOCK_SIZE
     = Inr [3, 0, 0, 0, 3, 0, 0, 0, 1, 2, 3]"
proof -
  let ?P = "cpython312_platform LittleEndian"
  have a: "compress_hybrid run_lz4 ?P [1, 2, 3] (MAX_BLOCK_SIZE + 1) = Inl SystemError"
    by (simp add: compress_hybrid_def)
  have b: "compress_hybrid run_lz4 (ideal_platform LittleEndian) [1, 2, 3] (MAX_BLOCK_SIZE + 1)
             = Inl (ValueError Block_size_exceeds_MAX_BLOCK_SIZE)"
    by (simp add: compress_hybrid_def)
  have c: "compress_hybrid run_lz4 ?P [1, 2, 3] 0 = Inl (ValueError Block_size_cannot_be_zero)"
    by (simp add: compress_hybrid_def MAX_BLOCK_SIZE_def)
  have n: "num_blocks_of (length [1, 2, 3 :: byte]) MAX_BLOCK_SIZE = Suc 0"
    by (simp add: num_blocks_of_def MAX_BLOCK_SIZE_def)
  have blk: "compress_block run_lz4 ?P [1, 2, 3] MAX_BLOCK_SIZE 0
               = Some \<lparr>offset_in = 0, orig_size = 3, comp_size = 3, comp_buf = [1, 2, 3]\<rparr>"
    by (simp add: compress_block_def Let_def run_lz4_def run_compress_def MAX_BLOCK_SIZE_def)
  have rs: "map the (compress_results run_lz4 ?P [1, 2, 3] MAX_BLOCK_SIZE)
              = [\<lparr>offset_in = 0, orig_size = 3, comp_size = 3, comp_buf = [1, 2, 3]\<rparr>]"
    unfolding compress_results_def n by (simp add: blk)
  have na: "no_alloc_failure ?P" by (simp add: no_alloc_failure_def)
  have "compress_hybrid run_lz4 ?P [1, 2, 3] MAX_BLOCK_SIZE
          = Inr (concat (map (frame_of (byte_order ?P))
                   (map the (compress_results run_lz4 ?P [1, 2, 3] MAX_BLOCK_SIZE))))"
    by (rule compress_hybrid_frames [OF na]) (simp_all add: MAX_BLOCK_SIZE_def)
  then have d: "compress_hybrid run_lz4 ?P [1, 2, 3] MAX_BLOCK_SIZE
                  = Inr [3, 0, 0, 0, 3, 0, 0, 0, 1, 2, 3]"
    unfolding rs by (simp add: frame_of_def store_u32_def le_bytes_def)
  from a b c d show ?thesis by blast
qed

text \<open>
  C6. For an accepted block size, when no allocation fails, the encoded stream has exactly
  \<open>stored_size + 8\<close> bytes for every block, and at most \<open>N + 8 * num_blocks\<close> in all, where
  \<open>num_blocks = \<lceil>N / block_size\<rceil>\<close>.
\<close>

theorem encoded_length:
  assumes "0 < block_size" and "block_size \<le> MAX_BLOCK_SIZE" and "no_alloc_failure pf"
  shows "\<exists>E. compress_hybrid lz pf B block_size = Inr E
           \<and> length E = sum_list (map (\<lambda>r. nat (comp_size r) + HEADER_SIZE)
                                      (map the (compress_results lz pf B block_size)))
           \<and> length E \<le> length B + num_blocks_of (length B) block_size * HEADER_SIZE
           \<and> length (compress_results lz pf B block_size) = num_blocks_of (length B) block_size
           \<and> int (num_blocks_of (length B) block_size) = \<lceil>real (length B) / real block_size\<rceil>"
proof -
  define rs where "rs = map the (compress_results lz pf B block_size)"
  have em: "list_all emitted rs"
    unfolding rs_def by (rule results_emitted [OF assms(3,1,2)])
  have tot: "sum_list (map orig_size rs) = length B"
    unfolding rs_def by (rule results_orig_total [OF assms(3,1,2)])
  have len: "length rs = num_blocks_of (length B) block_size"
    by (simp add: rs_def compress_results_def)
  have enc: "compress_hybrid lz pf B block_size = Inr (concat (map (frame_of (byte_order pf)) rs))"
    unfolding rs_def by (rule compress_hybrid_frames [OF assms(3,1,2)])
  have a: "length (concat (map (frame_of (byte_order pf)) rs))
             = sum_list (map (\<lambda>r. nat (comp_size r) + HEADER_SIZE) rs)"
    by (rule frames_length(1) [OF em])
  have b: "length (concat (map (frame_of (byte_order pf)) rs))
             \<le> length B + num_blocks_of (length B) block_size * HEADER_SIZE"
    using frames_length(2) [OF em, of "byte_order pf"] by (simp only: tot len)
  have c: "length (compress_results lz pf B block_size) = num_blocks_of (length B) block_size"
    by (simp add: compress_results_def)
  show ?thesis
    unfolding enc rs_def [symmetric]
    using a b c num_blocks_ceiling [OF assms(1), of "length B"] by blast
qed

theorem encoded_length_witness:
  "0 < (4::nat) \<and> 4 \<le> MAX_BLOCK_SIZE \<and> no_alloc_failure (ideal_platform LittleEndian)
   \<and> (\<exists>E. compress_hybrid run_lz4 (ideal_platform LittleEndian)
              [0x41, 0x41, 0x41, 0x41, 0x41, 0x41, 0x41, 0x41, 0x41, 0x41] 4 = Inr E
          \<and> length E \<le> 10 + 3 * 8)"
proof -
  let ?B = "[0x41, 0x41, 0x41, 0x41, 0x41, 0x41, 0x41, 0x41, 0x41, 0x41] :: byte list"
  have h1: "0 < (4::nat)" by simp
  have h2: "4 \<le> MAX_BLOCK_SIZE" by (simp add: MAX_BLOCK_SIZE_def)
  have h3: "no_alloc_failure (ideal_platform LittleEndian)" by (rule ideal_no_alloc_failure)
  have n: "num_blocks_of (length ?B) 4 = 3" by (simp add: num_blocks_of_def)
  from encoded_length [OF h1 h2 h3, of run_lz4 ?B, unfolded n]
  have "\<exists>E. compress_hybrid run_lz4 (ideal_platform LittleEndian) ?B 4 = Inr E
          \<and> length E \<le> length ?B + 3 * HEADER_SIZE"
    by blast
  then have "\<exists>E. compress_hybrid run_lz4 (ideal_platform LittleEndian) ?B 4 = Inr E
          \<and> length E \<le> 10 + 3 * 8"
    by (simp add: HEADER_SIZE_def)
  with h1 h2 h3 show ?thesis by blast
qed

text \<open>
  C10. The encoded stream is the concatenation of the frames; a frame holds the
  \<open>uint32_t\<close> \<open>original_size\<close> in bytes 0 to 3 and the \<open>uint32_t\<close> \<open>stored_size\<close> in bytes
  4 to 7, both in the byte order of the machine. The index pass of \<open>decompress_hybrid\<close> on
  a machine of the same byte order returns an index with one entry per frame, whose two
  size fields are the ones written.
\<close>

theorem header_fields_recovered:
  assumes "0 < block_size" and "block_size \<le> MAX_BLOCK_SIZE" and "length B < 2 ^ 63"
    and "no_alloc_failure pf" and "no_alloc_failure pf'" and "byte_order pf' = byte_order pf"
  shows "let rs = map the (compress_results lz pf B block_size); e = byte_order pf
         in \<exists>pos tot index.
              compress_hybrid lz pf B block_size = Inr (concat (map (frame_of e) rs))
            \<and> build_index pf' (concat (map (frame_of e) rs)) 0 0 1024 [] = Some (Inr (pos, tot, index))
            \<and> length index = length rs
            \<and> (\<forall>i < length rs.
                  take 4 (frame_of e (rs ! i)) = store_u32 e (of_nat (orig_size (rs ! i)))
                \<and> take 4 (drop 4 (frame_of e (rs ! i))) = store_u32 e (of_int (comp_size (rs ! i)))
                \<and> blk_orig_size (index ! i) = of_nat (orig_size (rs ! i))
                \<and> blk_comp_size (index ! i) = of_int (comp_size (rs ! i))
                \<and> unat (blk_orig_size (index ! i)) = orig_size (rs ! i)
                \<and> int (unat (blk_comp_size (index ! i))) = comp_size (rs ! i))"
proof -
  define rs where "rs = map the (compress_results lz pf B block_size)"
  define e where "e = byte_order pf"
  define E where "E = concat (map (frame_of e) rs)"
  have em: "list_all emitted rs"
    unfolding rs_def by (rule results_emitted [OF assms(4,1,2)])
  have tot: "sum_list (map orig_size rs) = length B"
    unfolding rs_def by (rule results_orig_total [OF assms(4,1,2)])
  have enc: "compress_hybrid lz pf B block_size = Inr E"
    unfolding E_def rs_def e_def by (rule compress_hybrid_frames [OF assms(4,1,2)])
  have "0 + sum_list (map orig_size rs) < (2::nat) ^ 64"
    unfolding tot using assms(3) by simp
  from build_index_frames [OF em assms(5) this, of "[]" 1024 "[]"]
  have idx: "build_index pf' E 0 0 1024 [] = Some (Inr (length E, length B, index_of_frames 0 0 rs))"
    unfolding tot assms(6) E_def e_def by simp
  have fields: "take 4 (frame_of e (rs ! i)) = store_u32 e (of_nat (orig_size (rs ! i)))
                \<and> take 4 (drop 4 (frame_of e (rs ! i))) = store_u32 e (of_int (comp_size (rs ! i)))
                \<and> blk_orig_size (index_of_frames 0 0 rs ! i) = of_nat (orig_size (rs ! i))
                \<and> blk_comp_size (index_of_frames 0 0 rs ! i) = of_int (comp_size (rs ! i))
                \<and> unat (blk_orig_size (index_of_frames 0 0 rs ! i)) = orig_size (rs ! i)
                \<and> int (unat (blk_comp_size (index_of_frames 0 0 rs ! i))) = comp_size (rs ! i)"
    if i: "i < length rs" for i
  proof -
    have emi: "emitted (rs ! i)" using em i by (simp add: list_all_length)
    have "int (length (comp_buf (rs ! i))) = comp_size (rs ! i)" using emi by (simp add: emitted_def)
    then show ?thesis
      by (simp add: index_of_frames_fields [OF i] emitted_unat_orig [OF emi]
          emitted_unat_comp [OF emi] frame_of_def)
  qed
  have "\<exists>pos tot index.
              compress_hybrid lz pf B block_size = Inr E
            \<and> build_index pf' E 0 0 1024 [] = Some (Inr (pos, tot, index))
            \<and> length index = length rs
            \<and> (\<forall>i < length rs.
                  take 4 (frame_of e (rs ! i)) = store_u32 e (of_nat (orig_size (rs ! i)))
                \<and> take 4 (drop 4 (frame_of e (rs ! i))) = store_u32 e (of_int (comp_size (rs ! i)))
                \<and> blk_orig_size (index ! i) = of_nat (orig_size (rs ! i))
                \<and> blk_comp_size (index ! i) = of_int (comp_size (rs ! i))
                \<and> unat (blk_orig_size (index ! i)) = orig_size (rs ! i)
                \<and> int (unat (blk_comp_size (index ! i))) = comp_size (rs ! i))"
    using enc idx fields index_of_frames_length [of 0 0 rs] by blast
  then show ?thesis
    unfolding Let_def E_def rs_def e_def .
qed

theorem header_fields_recovered_witness:
  "0 < (4::nat) \<and> 4 \<le> MAX_BLOCK_SIZE
   \<and> length [0x41, 0x41, 0x41, 0x41, 0x41, 0x41, 0x41, 0x41, 0x41, 0x41 :: byte] < 2 ^ 63
   \<and> no_alloc_failure (ideal_platform BigEndian)
   \<and> byte_order (ideal_platform BigEndian) = byte_order (ideal_platform BigEndian)
   \<and> (\<exists>pos tot index.
          build_index (ideal_platform BigEndian)
            (concat (map (frame_of BigEndian)
               (map the (compress_results run_lz4 (ideal_platform BigEndian)
                  [0x41, 0x41, 0x41, 0x41, 0x41, 0x41, 0x41, 0x41, 0x41, 0x41] 4))))
            0 0 1024 [] = Some (Inr (pos, tot, index))
        \<and> length index = 3)"
proof -
  let ?B = "[0x41, 0x41, 0x41, 0x41, 0x41, 0x41, 0x41, 0x41, 0x41, 0x41] :: byte list"
  have h1: "0 < (4::nat)" by simp
  have h2: "4 \<le> MAX_BLOCK_SIZE" by (simp add: MAX_BLOCK_SIZE_def)
  have h3: "length ?B < 2 ^ 63" by simp
  have h4: "no_alloc_failure (ideal_platform BigEndian)" by (rule ideal_no_alloc_failure)
  have h6: "byte_order (ideal_platform BigEndian) = byte_order (ideal_platform BigEndian)"
    by simp
  have e: "byte_order (ideal_platform BigEndian) = BigEndian" by (simp add: ideal_platform_def)
  have n: "length (map the (compress_results run_lz4 (ideal_platform BigEndian) ?B 4)) = 3"
    by (simp add: compress_results_def num_blocks_of_def)
  from header_fields_recovered [OF h1 h2 h3 h4 h4 h6, of run_lz4, unfolded Let_def e n]
  have "\<exists>pos tot index.
          build_index (ideal_platform BigEndian)
            (concat (map (frame_of BigEndian)
               (map the (compress_results run_lz4 (ideal_platform BigEndian) ?B 4))))
            0 0 1024 [] = Some (Inr (pos, tot, index))
        \<and> length index = 3"
    by blast
  with h1 h2 h3 h4 h6 show ?thesis by blast
qed

text \<open>
  C3. When the index pass reaches a header whose \<open>original_size\<close> exceeds
  \<open>MAX_BLOCK_SIZE\<close>, or whose \<open>stored_size\<close> exceeds the bytes that remain after the header,
  that iteration returns and \<open>decompress_hybrid\<close> raises the format error for this header.
  When the loop ends with the cursor not on the end of the input, \<open>decompress_hybrid\<close>
  raises the trailing-data error; in particular it does so for a stream it decodes, with
  one to seven bytes appended. No data is returned in any of the cases.
\<close>

theorem index_pass_rejects:
  "(index_reach pf in_data (in_offset, tot, cap, idx) \<and> in_offset + HEADER_SIZE \<le> length in_data
      \<and> (unat (load_u32 (byte_order pf) (take 4 (drop in_offset in_data))) > MAX_BLOCK_SIZE
         \<or> unat (load_u32 (byte_order pf) (take 4 (drop (in_offset + 4) in_data)))
              > length in_data - (in_offset + HEADER_SIZE))
     \<longrightarrow> index_step pf in_data in_offset tot cap idx
           = Inl (RuntimeError (Invalid_block_header
                   (load_u32 (byte_order pf) (take 4 (drop in_offset in_data)))))
       \<and> decompress_hybrid lz pf in_data
           = Some (Inl (RuntimeError (Invalid_block_header
                   (load_u32 (byte_order pf) (take 4 (drop in_offset in_data)))))))
   \<and> (index_reach pf in_data (in_offset, tot, cap, idx) \<and> \<not> in_offset + HEADER_SIZE \<le> length in_data
      \<and> in_offset \<noteq> length in_data
     \<longrightarrow> decompress_hybrid lz pf in_data = Some (Inl (RuntimeError Trailing_data)))
   \<and> (decompress_hybrid lz pf in_data = Some (Inr out) \<and> 0 < length junk \<and> length junk < HEADER_SIZE
     \<longrightarrow> decompress_hybrid lz pf (in_data @ junk) = Some (Inl (RuntimeError Trailing_data)))"
proof (intro conjI impI)
  assume a: "index_reach pf in_data (in_offset, tot, cap, idx) \<and> in_offset + HEADER_SIZE \<le> length in_data
      \<and> (unat (load_u32 (byte_order pf) (take 4 (drop in_offset in_data))) > MAX_BLOCK_SIZE
         \<or> unat (load_u32 (byte_order pf) (take 4 (drop (in_offset + 4) in_data)))
              > length in_data - (in_offset + HEADER_SIZE))"
  then have g: "in_offset + HEADER_SIZE \<le> length in_data"
    and bad: "unat (load_u32 (byte_order pf) (take 4 (drop in_offset in_data))) > MAX_BLOCK_SIZE
         \<or> unat (load_u32 (byte_order pf) (take 4 (drop (in_offset + 4) in_data)))
              > length in_data - (in_offset + HEADER_SIZE)"
    by blast+
  from a index_reach_build_index [of pf in_data "(in_offset, tot, cap, idx)"]
  have al: "alloc_ok pf Index_array 1024"
    and eq: "build_index pf in_data 0 0 1024 [] = build_index pf in_data in_offset tot cap idx"
    by simp_all
  show "index_step pf in_data in_offset tot cap idx
           = Inl (RuntimeError (Invalid_block_header
                   (load_u32 (byte_order pf) (take 4 (drop in_offset in_data)))))"
    by (rule build_index_bad_header(1) [OF g bad])
  show "decompress_hybrid lz pf in_data
           = Some (Inl (RuntimeError (Invalid_block_header
                   (load_u32 (byte_order pf) (take 4 (drop in_offset in_data))))))"
    by (rule decompress_hybrid_index_error [OF al])
       (simp only: eq build_index_bad_header(2) [OF g bad])
next
  assume a: "index_reach pf in_data (in_offset, tot, cap, idx) \<and> \<not> in_offset + HEADER_SIZE \<le> length in_data
      \<and> in_offset \<noteq> length in_data"
  then have g: "\<not> in_offset + HEADER_SIZE \<le> length in_data" and ne: "in_offset \<noteq> length in_data"
    by blast+
  from a index_reach_build_index [of pf in_data "(in_offset, tot, cap, idx)"]
  have al: "alloc_ok pf Index_array 1024"
    and eq: "build_index pf in_data 0 0 1024 [] = build_index pf in_data in_offset tot cap idx"
    by simp_all
  have "build_index pf in_data 0 0 1024 [] = Some (Inr (in_offset, tot, idx))"
    by (simp only: eq build_index_exit [OF g])
  from decompress_hybrid_trailing [OF al this ne]
  show "decompress_hybrid lz pf in_data = Some (Inl (RuntimeError Trailing_data))" .
next
  assume a: "decompress_hybrid lz pf in_data = Some (Inr out) \<and> 0 < length junk \<and> length junk < HEADER_SIZE"
  then have j: "0 < length junk" "length junk < HEADER_SIZE" by blast+
  from a decompress_hybrid_Inr_index [of lz pf in_data out]
  obtain t ix where al: "alloc_ok pf Index_array 1024"
    and b: "build_index pf in_data 0 0 1024 [] = Some (Inr (length in_data, t, ix))"
    by blast
  from build_index_append [OF b, of junk] j(2)
  have "build_index pf (in_data @ junk) 0 0 1024 [] = Some (Inr (length in_data, t, ix))"
    by blast
  moreover have "length in_data \<noteq> length (in_data @ junk)" using j(1) by simp
  ultimately show "decompress_hybrid lz pf (in_data @ junk) = Some (Inl (RuntimeError Trailing_data))"
    by (rule decompress_hybrid_trailing [OF al])
qed

theorem index_pass_rejects_witness:
  "index_reach (ideal_platform LittleEndian) [1,0,0,0, 1,0,0,0, 7, 5,0,0,0, 9,0,0,0, 1,2]
     (9, 1, 1024, [\<lparr>blk_in_offset = 8, blk_out_offset = 0, blk_comp_size = 1, blk_orig_size = 1\<rparr>])
   \<and> decompress_hybrid run_lz4 (ideal_platform LittleEndian) [1,0,0,0, 1,0,0,0, 7, 5,0,0,0, 9,0,0,0, 1,2]
       = Some (Inl (RuntimeError (Invalid_block_header 5)))
   \<and> index_reach (ideal_platform LittleEndian) [1,0,0,0, 1,0,0,0, 7, 3]
     (9, 1, 1024, [\<lparr>blk_in_offset = 8, blk_out_offset = 0, blk_comp_size = 1, blk_orig_size = 1\<rparr>])
   \<and> decompress_hybrid run_lz4 (ideal_platform LittleEndian) [1,0,0,0, 1,0,0,0, 7, 3]
       = Some (Inl (RuntimeError Trailing_data))
   \<and> decompress_hybrid run_lz4 (ideal_platform LittleEndian) [1,0,0,0, 1,0,0,0, 7] = Some (Inr [7])
   \<and> decompress_hybrid run_lz4 (ideal_platform LittleEndian) ([1,0,0,0, 1,0,0,0, 7] @ [3])
       = Some (Inl (RuntimeError Trailing_data))"
proof -
  let ?P = "ideal_platform LittleEndian"
  let ?e = "\<lparr>blk_in_offset = 8, blk_out_offset = 0, blk_comp_size = 1, blk_orig_size = 1\<rparr>"
  let ?in1 = "[1,0,0,0, 1,0,0,0, 7, 5,0,0,0, 9,0,0,0, 1,2] :: byte list"
  let ?in2 = "[1,0,0,0, 1,0,0,0, 7, 3] :: byte list"
  let ?in3 = "[1,0,0,0, 1,0,0,0, 7] :: byte list"
  have s1: "index_step ?P ?in1 0 0 1024 [] = Inr (9, 1, 1024, [?e])"
    by (simp add: index_step_def Let_def load_u32_def MAX_BLOCK_SIZE_def HEADER_SIZE_def)
  have r1: "index_reach ?P ?in1 (9, 1, 1024, [?e])"
    by (rule index_reach.step [OF index_reach.start _ s1]) (simp_all add: HEADER_SIZE_def)
  have g1: "9 + HEADER_SIZE \<le> length ?in1" by (simp add: HEADER_SIZE_def)
  have o1: "load_u32 (byte_order ?P) (take 4 (drop 9 ?in1)) = 5"
    by (simp add: load_u32_def)
  have b1: "unat (load_u32 (byte_order ?P) (take 4 (drop (9 + 4) ?in1)))
              > length ?in1 - (9 + HEADER_SIZE)"
    by (simp add: load_u32_def HEADER_SIZE_def)
  from index_pass_rejects [of ?P ?in1 9 1 1024 "[?e]" run_lz4] r1 g1 b1
  have c1: "decompress_hybrid run_lz4 ?P ?in1 = Some (Inl (RuntimeError (Invalid_block_header 5)))"
    unfolding o1 by blast
  have s2: "index_step ?P ?in2 0 0 1024 [] = Inr (9, 1, 1024, [?e])"
    by (simp add: index_step_def Let_def load_u32_def MAX_BLOCK_SIZE_def HEADER_SIZE_def)
  have r2: "index_reach ?P ?in2 (9, 1, 1024, [?e])"
    by (rule index_reach.step [OF index_reach.start _ s2]) (simp_all add: HEADER_SIZE_def)
  have g2: "\<not> 9 + HEADER_SIZE \<le> length ?in2" by (simp add: HEADER_SIZE_def)
  have n2: "9 \<noteq> length ?in2" by simp
  from index_pass_rejects [of ?P ?in2 9 1 1024 "[?e]" run_lz4] r2 g2 n2
  have c2: "decompress_hybrid run_lz4 ?P ?in2 = Some (Inl (RuntimeError Trailing_data))"
    by blast
  have i3: "build_index ?P ?in3 0 0 1024 [] = Some (Inr (9, 1, [?e]))"
    by (simp add: build_index.simps index_step_def Let_def load_u32_def MAX_BLOCK_SIZE_def
        HEADER_SIZE_def)
  have ok3: "decompress_hybrid run_lz4 ?P ?in3 = Some (Inr [7])"
    by (simp add: decompress_hybrid_def i3 uninit_def decode_block_def Let_def memcpy_def)
  have j3: "0 < length [3::byte]" "length [3::byte] < HEADER_SIZE" by (simp_all add: HEADER_SIZE_def)
  from index_pass_rejects [of ?P ?in3 0 0 1024 "[]" run_lz4 "[7]" "[3]"] ok3 j3
  have c3: "decompress_hybrid run_lz4 ?P (?in3 @ [3]) = Some (Inl (RuntimeError Trailing_data))"
    by blast
  from r1 c1 r2 c2 ok3 c3 show ?thesis by blast
qed

text \<open>
  C4. When the index pass accepts a stream, and for some entry of the index with
  \<open>stored_size \<noteq> original_size\<close> the decompressor returns a size other than
  \<open>original_size\<close>, \<open>decompress_hybrid\<close> returns no data (\<open>codec_mismatch_no_data\<close>). It
  raises the size-mismatch error when the thread that finds the mismatch can call
  \<open>PyErr_Occurred\<close>. The code makes the call inside the parallel loop, on the thread of
  the team that runs the iteration, which has no Python thread state of its own: with
  CPython 3.12 and later a thread of the team other than the calling one dereferences a
  null thread state there, and the call does not return an error but ends the process.
  So for a stream of two frames, the second with \<open>original_size\<close> 4 and the one payload
  byte 0, on a team whose second thread runs the second iteration:
\<close>

theorem codec_mismatch_segfault:
  "build_index (cpython312_platform LittleEndian)
       [1,0,0,0, 1,0,0,0, 7, 4,0,0,0, 1,0,0,0, 0] 0 0 1024 []
     = Some (Inr (length [1,0,0,0, 1,0,0,0, 7, 4,0,0,0, 1,0,0,0, 0 :: byte], 5,
          [\<lparr>blk_in_offset = 8, blk_out_offset = 0, blk_comp_size = 1, blk_orig_size = 1\<rparr>,
           \<lparr>blk_in_offset = 17, blk_out_offset = 1, blk_comp_size = 1, blk_orig_size = 4\<rparr>]))
   \<and> decomp_size_of run_lz4 [1,0,0,0, 1,0,0,0, 7, 4,0,0,0, 1,0,0,0, 0]
        \<lparr>blk_in_offset = 17, blk_out_offset = 1, blk_comp_size = 1, blk_orig_size = 4\<rparr> = - 1
   \<and> decompress_hybrid run_lz4 (cpython312_platform LittleEndian)
        [1,0,0,0, 1,0,0,0, 7, 4,0,0,0, 1,0,0,0, 0] = Some (Inl Segfault)
   \<and> decompress_hybrid run_lz4 (ideal_platform LittleEndian)
        [1,0,0,0, 1,0,0,0, 7, 4,0,0,0, 1,0,0,0, 0] = Some (Inl (RuntimeError LZ4_size_mismatch))"
proof -
  let ?e0 = "\<lparr>blk_in_offset = 8, blk_out_offset = 0, blk_comp_size = 1, blk_orig_size = 1\<rparr>"
  let ?e1 = "\<lparr>blk_in_offset = 17, blk_out_offset = 1, blk_comp_size = 1, blk_orig_size = 4\<rparr>"
  let ?in = "[1,0,0,0, 1,0,0,0, 7, 4,0,0,0, 1,0,0,0, 0] :: byte list"
  have i: "build_index pf ?in 0 0 1024 [] = Some (Inr (length ?in, 5, [?e0, ?e1]))"
    if "byte_order pf = LittleEndian" for pf
    by (simp add: build_index.simps index_step_def Let_def load_u32_def MAX_BLOCK_SIZE_def
        HEADER_SIZE_def that)
  have d: "decomp_size_of run_lz4 ?in ?e1 = - 1"
    by (simp add: decomp_size_of_def block_payload_def run_lz4_def run_decompress_def)
  have b0: "decode_block run_lz4 pf ?in 0 (uninit pf 5, False) ?e0
              = Inr (memcpy (uninit pf 5) 0 [7], False)" for pf
    by (simp add: decode_block_def Let_def)
  have b1: "decode_block run_lz4 pf ?in (Suc 0) (out, False)
              \<lparr>blk_in_offset = 17, blk_out_offset = oo, blk_comp_size = 1, blk_orig_size = 4\<rparr>
              = (if pyerr_callable pf (Suc 0) then Inr (out, True) else Inl Segfault)" for pf out oo
    by (simp add: decode_block_def Let_def run_lz4_def run_decompress_def)
  have c: "decompress_hybrid run_lz4 (cpython312_platform LittleEndian) ?in = Some (Inl Segfault)"
    by (simp add: decompress_hybrid_def i b0 b1)
  have c': "decompress_hybrid run_lz4 (ideal_platform LittleEndian) ?in
              = Some (Inl (RuntimeError LZ4_size_mismatch))"
    by (simp add: decompress_hybrid_def i b0 b1)
  from i [of "cpython312_platform LittleEndian"] d c c' show ?thesis by simp
qed

text \<open>
  C9. A header with \<open>original_size \<le> MAX_BLOCK_SIZE\<close> and a \<open>stored_size\<close> that fits in the
  rest of the input passes the checks of the index pass whatever the relation of the two
  sizes. When they differ, also with \<open>stored_size > original_size\<close>, the entry goes to the
  decompressor with its payload, and the block is decoded without error exactly when the
  decompressor returns \<open>original_size\<close>.
\<close>

theorem stored_size_unrelated:
  assumes "in_offset + HEADER_SIZE \<le> length in_data"
    and "load_u32 (byte_order pf) (take 4 (drop in_offset in_data)) = orig"
    and "load_u32 (byte_order pf) (take 4 (drop (in_offset + 4) in_data)) = stored"
    and "unat orig \<le> MAX_BLOCK_SIZE"
    and "unat stored \<le> length in_data - (in_offset + HEADER_SIZE)"
    and "stored \<noteq> orig"
    and "cap \<le> length idx \<longrightarrow> alloc_ok pf Index_array (cap * 2)"
  shows "\<exists>entry cap'.
           entry = \<lparr>blk_in_offset = in_offset + HEADER_SIZE, blk_out_offset = tot,
                    blk_comp_size = stored, blk_orig_size = orig\<rparr>
         \<and> index_step pf in_data in_offset tot cap idx
             = Inr (in_offset + unat (of_nat HEADER_SIZE + stored), (tot + unat orig) mod 2 ^ 64,
                    cap', idx @ [entry])
         \<and> (\<forall>out i. (\<exists>out'. decode_block lz pf in_data i (out, False) entry = Inr (out', False))
                     = (decomp_size_of lz in_data entry = int (unat orig)))
         \<and> decomp_size_of lz in_data entry
             = (case LZ4_decompress_safe lz (take (unat stored) (drop (in_offset + HEADER_SIZE) in_data))
                       (sint stored) (int (unat orig)) of
                  Inl code \<Rightarrow> code | Inr written \<Rightarrow> int (length written))"
proof -
  have s: "sint orig = int (unat orig)"
  proof -
    have "unat orig < 2 ^ 31" using assms(4) by (simp add: MAX_BLOCK_SIZE_def)
    then have "sint (of_nat (unat orig) :: uint32_t) = int (unat orig)" by (rule sint_of_nat32)
    then show ?thesis by simp
  qed
  let ?entry = "\<lparr>blk_in_offset = in_offset + HEADER_SIZE, blk_out_offset = tot,
                    blk_comp_size = stored, blk_orig_size = orig\<rparr>"
  have a: "index_step pf in_data in_offset tot cap idx
             = Inr (in_offset + unat (of_nat HEADER_SIZE + stored), (tot + unat orig) mod 2 ^ 64,
                    (if length idx \<ge> cap then cap * 2 else cap), idx @ [?entry])"
    using assms(4,5,7) by (simp add: index_step_def Let_def assms(2,3))
  have ne: "blk_comp_size ?entry \<noteq> blk_orig_size ?entry" using assms(6) by simp
  have b: "(\<exists>out'. decode_block lz pf in_data i (out, False) ?entry = Inr (out', False))
             = (decomp_size_of lz in_data ?entry = int (unat orig))" for out i
  proof (cases "decomp_size_of lz in_data ?entry = int (unat orig)")
    case True
    then have "decomp_size_of lz in_data ?entry = sint (blk_orig_size ?entry)" by (simp add: s)
    from decode_block_match [OF ne this, of pf i out] True show ?thesis by simp
  next
    case False
    then have "decomp_size_of lz in_data ?entry \<noteq> sint (blk_orig_size ?entry)" by (simp add: s)
    from decode_block_mismatch(1) [OF ne this, of pf i out] False show ?thesis by auto
  qed
  have c: "decomp_size_of lz in_data ?entry
             = (case LZ4_decompress_safe lz (take (unat stored) (drop (in_offset + HEADER_SIZE) in_data))
                       (sint stored) (int (unat orig)) of
                  Inl code \<Rightarrow> code | Inr written \<Rightarrow> int (length written))"
    by (simp add: decomp_size_of_def block_payload_def s)
  from a b c show ?thesis by blast
qed

theorem stored_size_unrelated_witness:
  "unat (2 :: uint32_t) > unat (1 :: uint32_t)
   \<and> index_step (ideal_platform LittleEndian) [1,0,0,0, 2,0,0,0, 0x41, 1] 0 0 1024 []
       = Inr (10, 1, 1024,
              [\<lparr>blk_in_offset = 8, blk_out_offset = 0, blk_comp_size = 2, blk_orig_size = 1\<rparr>])
   \<and> decomp_size_of run_lz4 [1,0,0,0, 2,0,0,0, 0x41, 1]
        \<lparr>blk_in_offset = 8, blk_out_offset = 0, blk_comp_size = 2, blk_orig_size = 1\<rparr> = 1
   \<and> (\<exists>out'. decode_block run_lz4 (ideal_platform LittleEndian) [1,0,0,0, 2,0,0,0, 0x41, 1] 0
                ([0xAA], False)
                \<lparr>blk_in_offset = 8, blk_out_offset = 0, blk_comp_size = 2, blk_orig_size = 1\<rparr>
              = Inr (out', False))"
proof -
  let ?P = "ideal_platform LittleEndian"
  let ?e = "\<lparr>blk_in_offset = 8, blk_out_offset = 0, blk_comp_size = 2, blk_orig_size = 1\<rparr>"
  let ?in = "[1,0,0,0, 2,0,0,0, 0x41, 1] :: byte list"
  have h1: "0 + HEADER_SIZE \<le> length ?in" by (simp add: HEADER_SIZE_def)
  have h2: "load_u32 (byte_order ?P) (take 4 (drop 0 ?in)) = 1" by (simp add: load_u32_def)
  have h3: "load_u32 (byte_order ?P) (take 4 (drop (0 + 4) ?in)) = 2" by (simp add: load_u32_def)
  have h4: "unat (1 :: uint32_t) \<le> MAX_BLOCK_SIZE" by (simp add: MAX_BLOCK_SIZE_def)
  have h5: "unat (2 :: uint32_t) \<le> length ?in - (0 + HEADER_SIZE)" by (simp add: HEADER_SIZE_def)
  have h6: "(2 :: uint32_t) \<noteq> 1" by simp
  have h7: "1024 \<le> length ([] :: BlockIndex list) \<longrightarrow> alloc_ok ?P Index_array (1024 * 2)" by simp
  from stored_size_unrelated [OF h1 h2 h3 h4 h5 h6 h7, of 0 run_lz4]
  obtain cap' where
    st: "index_step ?P ?in 0 0 1024 []
           = Inr (0 + unat (of_nat HEADER_SIZE + (2 :: uint32_t)), (0 + unat (1 :: uint32_t)) mod 2 ^ 64,
                  cap', [] @ [\<lparr>blk_in_offset = 0 + HEADER_SIZE, blk_out_offset = 0,
                                 blk_comp_size = 2, blk_orig_size = 1\<rparr>])"
    and dec: "\<forall>out i. (\<exists>out'. decode_block run_lz4 ?P ?in i (out, False)
                  \<lparr>blk_in_offset = 0 + HEADER_SIZE, blk_out_offset = 0,
                                 blk_comp_size = 2, blk_orig_size = 1\<rparr> = Inr (out', False))
                = (decomp_size_of run_lz4 ?in \<lparr>blk_in_offset = 0 + HEADER_SIZE, blk_out_offset = 0,
                                 blk_comp_size = 2, blk_orig_size = 1\<rparr> = int (unat (1 :: uint32_t)))"
    by blast
  have d: "decomp_size_of run_lz4 ?in ?e = 1"
    by (simp add: decomp_size_of_def block_payload_def run_lz4_def run_decompress_def)
  have cap: "cap' = 1024"
    using st by (simp add: index_step_def Let_def load_u32_def MAX_BLOCK_SIZE_def HEADER_SIZE_def)
  from st have st': "index_step ?P ?in 0 0 1024 [] = Inr (10, 1, 1024, [?e])"
    unfolding cap by (simp add: HEADER_SIZE_def)
  have e: "\<lparr>blk_in_offset = 0 + HEADER_SIZE, blk_out_offset = 0,
             blk_comp_size = 2, blk_orig_size = 1\<rparr> = ?e"
    by (simp add: HEADER_SIZE_def)
  from dec [unfolded e] d
  have "\<exists>out'. decode_block run_lz4 ?P ?in 0 ([0xAA], False) ?e = Inr (out', False)"
    by simp
  with st' d show ?thesis by simp
qed

text \<open>
  C5. The index of a stream shorter than \<open>2 ^ 32\<close> bytes has no gap and no overlap
  (\<open>build_index_tiles\<close>, \<open>tiles_first\<close>, \<open>tiles_adjacent\<close>). From \<open>2 ^ 32\<close> bytes on it can
  have: the cursor advances by \<open>HEADER_SIZE + comp_size\<close> in 32-bit arithmetic. On
  \<open>wrapping_stream\<close>, the one frame with \<open>stored_size = 0xFFFFFFFF\<close>, the cursor advances
  by 7; the pass reads the next header at offset 7, inside the payload region of entry 0
  that starts at 8 and has \<open>2 ^ 32 - 1\<close> bytes, and returns an index of \<open>2 ^ 29 + 1\<close>
  entries.
\<close>

theorem index_pass_wraps:
  "length wrapping_stream = 2 ^ 32 + 7
   \<and> build_index (ideal_platform LittleEndian) wrapping_stream 0 0 1024 []
       = Some (Inr (length wrapping_stream, 255,
           \<lparr>blk_in_offset = 8, blk_out_offset = 0, blk_comp_size = 0xFFFFFFFF, blk_orig_size = 0\<rparr>
         # \<lparr>blk_in_offset = 15, blk_out_offset = 0, blk_comp_size = 0, blk_orig_size = 255\<rparr>
         # index_of_frames 15 255 (replicate (2 ^ 29 - 1) empty_block)))"
proof -
  let ?P = "ideal_platform LittleEndian"
  let ?pre = "[0, 0, 0, 0, 255, 255, 255, 255, 0, 0, 0, 0, 0, 0, 0] :: byte list"
  let ?rs = "replicate (2 ^ 29 - 1) empty_block"
  let ?rest = "concat (map (frame_of LittleEndian) ?rs)"
  let ?e0 = "\<lparr>blk_in_offset = 8, blk_out_offset = 0, blk_comp_size = 0xFFFFFFFF, blk_orig_size = 0\<rparr>"
  let ?e1 = "\<lparr>blk_in_offset = 15, blk_out_offset = 0, blk_comp_size = 0, blk_orig_size = 255\<rparr>"
  have lrest: "length ?rest = 2 ^ 32 - 8" unfolding concat_empty_frames by simp
  have len: "length wrapping_stream = 2 ^ 32 + 7"
    unfolding wrapping_stream_split using lrest by simp
  have em: "list_all emitted ?rs" by (simp add: list_all_iff emitted_empty_block)
  have z: "sum_list (map orig_size ?rs) = 0" by (simp add: empty_block_def)
  have bound: "255 + sum_list (map orig_size ?rs) < (2::nat) ^ 64" unfolding z by simp
  have lp: "length ?pre = 15" by simp
  from build_index_frames [OF em ideal_no_alloc_failure [of LittleEndian] bound,
      of ?pre 1024 "[?e0, ?e1]"]
  have tail: "build_index ?P (?pre @ ?rest) 15 255 1024 [?e0, ?e1]
        = Some (Inr (15 + length ?rest, 255, [?e0, ?e1] @ index_of_frames 15 255 ?rs))"
    unfolding z lp by simp
  have "build_index ?P wrapping_stream 0 0 1024 []
        = Some (Inr (length wrapping_stream, 255, ?e0 # ?e1 # index_of_frames 15 255 ?rs))"
    unfolding wrapping_stream_split wrapping_first_steps [OF lrest] tail by simp
  with len show ?thesis by blast
qed

end
